theory Spec2Isabelle
  imports Main "HOL-Library.Multiset" "HOL-Library.Sublist"
begin

section \<open>Standard-library collaborators of logmerge\<close>

text \<open>
  \<^verbatim>\<open>main.go\<close> calls three packages of the Go standard library: \<^verbatim>\<open>time\<close>
  (\<^verbatim>\<open>time.Parse\<close>, \<^verbatim>\<open>Time.Year\<close>, \<^verbatim>\<open>Time.AddDate\<close>, \<^verbatim>\<open>Before\<close>, \<^verbatim>\<open>After\<close>,
  \<^verbatim>\<open>IsZero\<close>), \<^verbatim>\<open>regexp\<close> (\<^verbatim>\<open>FindStringIndex\<close>) and \<^verbatim>\<open>bufio\<close>/\<^verbatim>\<open>os\<close>
  (a line scanner over an opened file). They are not code of the repository; this section
  models them after their documented behaviour (Go 1.22, the version the repository's
  workflow builds with), as far as the program uses them. A Go \<^verbatim>\<open>string\<close> is a byte
  sequence and offsets are byte offsets, so a line is a \<^typ>\<open>string\<close> and an offset a
  \<^typ>\<open>nat\<close>.
\<close>

subsection \<open>Instants: \<^verbatim>\<open>time.Time\<close>\<close>

text \<open>
  A \<^verbatim>\<open>time.Time\<close> is kept by its civil fields in its own location together with the
  location's offset east of UTC in seconds. The instant it denotes is computed the way
  \<^verbatim>\<open>time.Date\<close> does (days since the epoch from year, month and day). All comparisons
  of the program (\<^verbatim>\<open>Before\<close>, \<^verbatim>\<open>After\<close>, \<^verbatim>\<open>IsZero\<close>) read only the instant.
\<close>

record Time =
  Year :: int
  Month :: int
  Day :: int
  Hour :: int
  Minute :: int
  Second :: int
  Nanosecond :: int
  Offset :: int

definition zeroTime :: Time where
  \<comment> \<open>\<^verbatim>\<open>time.Time{}\<close>: January 1, year 1, 00:00:00 UTC\<close>
  "zeroTime = \<lparr>Year = 1, Month = 1, Day = 1, Hour = 0, Minute = 0, Second = 0,
                Nanosecond = 0, Offset = 0\<rparr>"

definition isLeap :: "int \<Rightarrow> bool" where
  "isLeap y = (y mod 4 = 0 \<and> (y mod 100 \<noteq> 0 \<or> y mod 400 = 0))"

definition daysBefore :: "int \<Rightarrow> int" where
  \<comment> \<open>days of a non-leap year before the first of month \<open>m\<close>\<close>
  "daysBefore m = [0, 31, 59, 90, 120, 151, 181, 212, 243, 273, 304, 334, 365] ! nat (m - 1)"

definition daysIn :: "int \<Rightarrow> int \<Rightarrow> int" where
  "daysIn m y = (if m = 2 \<and> isLeap y then 29 else daysBefore (m + 1) - daysBefore m)"

definition daysSinceEpoch :: "int \<Rightarrow> int" where
  \<comment> \<open>days from January 1 of year 1 to January 1 of year \<open>y\<close>\<close>
  "daysSinceEpoch y = 365 * (y - 1) + (y - 1) div 4 - (y - 1) div 100 + (y - 1) div 400"

definition instant :: "Time \<Rightarrow> int" where
  \<comment> \<open>nanoseconds since the zero time\<close>
  "instant t =
     (((daysSinceEpoch (Year t) + daysBefore (Month t)
         + (if isLeap (Year t) \<and> 3 \<le> Month t then 1 else 0) + (Day t - 1)) * 86400
       + Hour t * 3600 + Minute t * 60 + Second t - Offset t) * 1000000000) + Nanosecond t"

definition Before :: "Time \<Rightarrow> Time \<Rightarrow> bool" where
  "Before t u = (instant t < instant u)"

definition After :: "Time \<Rightarrow> Time \<Rightarrow> bool" where
  "After t u = (instant u < instant t)"

definition IsZero :: "Time \<Rightarrow> bool" where
  "IsZero t = (instant t = 0)"

definition AddDate :: "Time \<Rightarrow> int \<Rightarrow> Time" where
  \<comment> \<open>\<^verbatim>\<open>t.AddDate(years, 0, 0)\<close>, the only form the program calls: the date
      \<open>(Year t + years, Month t, Day t)\<close> with the clock of \<open>t\<close>, normalised as
      \<^verbatim>\<open>time.Date\<close> does. On a valid \<open>t\<close> only February 29 can overflow, into March 1.\<close>
  "AddDate t years =
     (let y = Year t + years in
      if Day t \<le> daysIn (Month t) y then t\<lparr>Year := y\<rparr>
      else t\<lparr>Year := y, Month := Month t + 1, Day := Day t - daysIn (Month t) y\<rparr>)"

subsection \<open>Layouts: \<^verbatim>\<open>time.Parse\<close>\<close>

text \<open>
  A layout string is kept as the sequence of chunks \<^verbatim>\<open>nextStdChunk\<close> cuts it into:
  literal text and the standard elements \<^verbatim>\<open>2006 01 Jan 02 _2 15 04 05 .000 -0700\<close>,
  the only ones the program's layouts contain.
\<close>

datatype chunk =
    Lit string
  | StdYear            \<comment> \<open>\<^verbatim>\<open>2006\<close>\<close>
  | StdZeroMonth       \<comment> \<open>\<^verbatim>\<open>01\<close>\<close>
  | StdMonth           \<comment> \<open>\<^verbatim>\<open>Jan\<close>\<close>
  | StdZeroDay         \<comment> \<open>\<^verbatim>\<open>02\<close>\<close>
  | StdUnderDay        \<comment> \<open>\<^verbatim>\<open>_2\<close>\<close>
  | StdHour            \<comment> \<open>\<^verbatim>\<open>15\<close>\<close>
  | StdZeroMinute      \<comment> \<open>\<^verbatim>\<open>04\<close>\<close>
  | StdZeroSecond      \<comment> \<open>\<^verbatim>\<open>05\<close>\<close>
  | StdFracSecond0 nat \<comment> \<open>\<^verbatim>\<open>.000\<close> with the given number of digits\<close>
  | StdNumTZ           \<comment> \<open>\<^verbatim>\<open>-0700\<close>\<close>

definition isDigit :: "char \<Rightarrow> bool" where
  "isDigit c = (c \<in> set ''0123456789'')"

definition digitVal :: "char \<Rightarrow> int" where
  "digitVal c = int (length (takeWhile (\<lambda>d. d \<noteq> c) ''0123456789''))"

definition digitsVal :: "string \<Rightarrow> int" where
  "digitsVal s = foldl (\<lambda>n c. 10 * n + digitVal c) 0 s"

definition atoi :: "string \<Rightarrow> int option" where
  \<comment> \<open>an optional sign, then decimal digits only\<close>
  "atoi s =
     (let neg = (s \<noteq> [] \<and> hd s = CHR ''-'');
          r = (if s \<noteq> [] \<and> (hd s = CHR ''-'' \<or> hd s = CHR ''+'') then tl s else s)
      in if list_all isDigit r then Some (if neg then - digitsVal r else digitsVal r) else None)"

definition getnum :: "string \<Rightarrow> bool \<Rightarrow> (int \<times> string) option" where
  \<comment> \<open>one or two digits; \<open>fixed\<close> demands two\<close>
  "getnum s fixed =
     (case s of
        [] \<Rightarrow> None
      | a # r \<Rightarrow>
          if \<not> isDigit a then None
          else (case r of
                  [] \<Rightarrow> if fixed then None else Some (digitVal a, r)
                | b # r' \<Rightarrow>
                    if \<not> isDigit b then (if fixed then None else Some (digitVal a, r))
                    else Some (digitVal a * 10 + digitVal b, r')))"

definition cutspace :: "string \<Rightarrow> string" where
  "cutspace s = dropWhile (\<lambda>c. c = CHR '' '') s"

lemma length_cutspace [termination_simp]: "length (cutspace s) < Suc (length s)"
  by (simp add: cutspace_def length_dropWhile_le less_Suc_eq_le)

fun skip :: "string \<Rightarrow> string \<Rightarrow> string option" where
  \<comment> \<open>\<^verbatim>\<open>skip(value, prefix)\<close>: a space of the prefix stands for any run of spaces\<close>
  "skip val [] = Some val"
| "skip val (p # ps) =
     (if p = CHR '' '' then
        (if val \<noteq> [] \<and> hd val \<noteq> CHR '' '' then None
         else skip (cutspace val) (cutspace ps))
      else (case val of
              [] \<Rightarrow> None
            | v # vs \<Rightarrow> if v = p then skip vs ps else None))"

definition lower :: "char \<Rightarrow> char" where
  "lower c =
     (case map_of (zip ''ABCDEFGHIJKLMNOPQRSTUVWXYZ'' ''abcdefghijklmnopqrstuvwxyz'') c of
        Some l \<Rightarrow> l
      | None \<Rightarrow> c)"

definition shortMonthNames :: "string list" where
  "shortMonthNames = [''Jan'', ''Feb'', ''Mar'', ''Apr'', ''May'', ''Jun'',
                      ''Jul'', ''Aug'', ''Sep'', ''Oct'', ''Nov'', ''Dec'']"

fun lookupFrom :: "int \<Rightarrow> string list \<Rightarrow> string \<Rightarrow> (int \<times> string) option" where
  \<comment> \<open>\<^verbatim>\<open>lookup(tab, val)\<close>: the first name that is a prefix of \<open>val\<close>, letters compared
      without regard to case\<close>
  "lookupFrom i [] val = None"
| "lookupFrom i (v # tab) val =
     (if length v \<le> length val \<and> map lower (take (length v) val) = map lower v
      then Some (i, drop (length v) val)
      else lookupFrom (i + 1) tab val)"

record parsed =
  p_year :: int
  p_month :: int
  p_day :: int
  p_hour :: int
  p_min :: int
  p_sec :: int
  p_nsec :: int
  p_zoneOffset :: int

definition parsed0 :: parsed where
  \<comment> \<open>the defaults \<^verbatim>\<open>time.Parse\<close> starts from\<close>
  "parsed0 = \<lparr>p_year = 0, p_month = -1, p_day = -1, p_hour = 0, p_min = 0, p_sec = 0,
               p_nsec = 0, p_zoneOffset = -1\<rparr>"

definition commaOrPeriod :: "char \<Rightarrow> bool" where
  "commaOrPeriod c = (c = CHR ''.'' \<or> c = CHR '','')"

definition parseNanoseconds :: "string \<Rightarrow> nat \<Rightarrow> int option" where
  \<comment> \<open>\<^verbatim>\<open>parseNanoseconds(value, nbytes)\<close>: a separator and \<open>nbytes - 1\<close> digits (at most
      nine are read), scaled to nanoseconds\<close>
  "parseNanoseconds val nbytes =
     (case val of
        [] \<Rightarrow> None
      | c # r \<Rightarrow>
          if \<not> commaOrPeriod c then None
          else (let n = min nbytes 10; ds = take (n - 1) r in
                case atoi ds of
                  None \<Rightarrow> None
                | Some ns \<Rightarrow> if ns < 0 then None else Some (ns * 10 ^ (10 - n))))"

fun nextStd :: "chunk list \<Rightarrow> chunk option" where
  "nextStd [] = None"
| "nextStd (Lit s # cs) = nextStd cs"
| "nextStd (c # cs) = Some c"

fun parseChunks :: "chunk list \<Rightarrow> string \<Rightarrow> parsed \<Rightarrow> parsed option" where
  "parseChunks [] val p = (if val = [] then Some p else None)"
| "parseChunks (Lit s # cs) val p =
     (case skip val s of None \<Rightarrow> None | Some v \<Rightarrow> parseChunks cs v p)"
| "parseChunks (StdYear # cs) val p =
     (if length val < 4 \<or> \<not> isDigit (val ! 0) then None
      else (case atoi (take 4 val) of
              None \<Rightarrow> None
            | Some y \<Rightarrow> parseChunks cs (drop 4 val) (p\<lparr>p_year := y\<rparr>)))"
| "parseChunks (StdZeroMonth # cs) val p =
     (case getnum val True of
        None \<Rightarrow> None
      | Some (m, v) \<Rightarrow>
          if m \<le> 0 \<or> 12 < m then None else parseChunks cs v (p\<lparr>p_month := m\<rparr>))"
| "parseChunks (StdMonth # cs) val p =
     (case lookupFrom 0 shortMonthNames val of
        None \<Rightarrow> None
      | Some (m, v) \<Rightarrow> parseChunks cs v (p\<lparr>p_month := m + 1\<rparr>))"
| "parseChunks (StdZeroDay # cs) val p =
     (case getnum val True of
        None \<Rightarrow> None
      | Some (d, v) \<Rightarrow> parseChunks cs v (p\<lparr>p_day := d\<rparr>))"
| "parseChunks (StdUnderDay # cs) val p =
     (case getnum (if val \<noteq> [] \<and> hd val = CHR '' '' then tl val else val) False of
        None \<Rightarrow> None
      | Some (d, v) \<Rightarrow> parseChunks cs v (p\<lparr>p_day := d\<rparr>))"
| "parseChunks (StdHour # cs) val p =
     (case getnum val False of
        None \<Rightarrow> None
      | Some (h, v) \<Rightarrow>
          if h < 0 \<or> 24 \<le> h then None else parseChunks cs v (p\<lparr>p_hour := h\<rparr>))"
| "parseChunks (StdZeroMinute # cs) val p =
     (case getnum val True of
        None \<Rightarrow> None
      | Some (m, v) \<Rightarrow>
          if m < 0 \<or> 60 \<le> m then None else parseChunks cs v (p\<lparr>p_min := m\<rparr>))"
| "parseChunks (StdZeroSecond # cs) val p =
     (case getnum val True of
        None \<Rightarrow> None
      | Some (s, v) \<Rightarrow>
          if s < 0 \<or> 60 \<le> s then None
          else if 2 \<le> length v \<and> commaOrPeriod (v ! 0) \<and> isDigit (v ! 1)
                  \<and> (case nextStd cs of Some (StdFracSecond0 k) \<Rightarrow> False | _ \<Rightarrow> True)
          then \<comment> \<open>a fraction in the input that the layout does not announce\<close>
            (let n = 1 + length (takeWhile isDigit (tl v)) in
             case parseNanoseconds v n of
               None \<Rightarrow> None
             | Some ns \<Rightarrow> parseChunks cs (drop n v) (p\<lparr>p_sec := s, p_nsec := ns\<rparr>))
          else parseChunks cs v (p\<lparr>p_sec := s\<rparr>))"
| "parseChunks (StdFracSecond0 k # cs) val p =
     (if length val < 1 + k then None
      else (case parseNanoseconds val (1 + k) of
              None \<Rightarrow> None
            | Some ns \<Rightarrow> parseChunks cs (drop (1 + k) val) (p\<lparr>p_nsec := ns\<rparr>)))"
| "parseChunks (StdNumTZ # cs) val p =
     (if length val < 5 then None
      else (case (getnum (take 2 (drop 1 val)) True, getnum (take 2 (drop 3 val)) True) of
              (Some (hr, _), Some (mm, _)) \<Rightarrow>
                if 24 < hr \<or> 60 < mm then None
                else if val ! 0 = CHR ''+''
                  then parseChunks cs (drop 5 val) (p\<lparr>p_zoneOffset := (hr * 60 + mm) * 60\<rparr>)
                else if val ! 0 = CHR ''-''
                  then parseChunks cs (drop 5 val) (p\<lparr>p_zoneOffset := - ((hr * 60 + mm) * 60)\<rparr>)
                else None
            | _ \<Rightarrow> None))"

definition time_Parse :: "chunk list \<Rightarrow> string \<Rightarrow> Time option" where
  \<comment> \<open>\<^verbatim>\<open>time.Parse(layout, value)\<close>; \<open>None\<close> is a parse error. A missing month or day is
      1, a missing year 0, a missing zone UTC; the day is validated against the month.\<close>
  "time_Parse layout val =
     (case parseChunks layout val parsed0 of
        None \<Rightarrow> None
      | Some p \<Rightarrow>
          (let m = (if p_month p < 0 then 1 else p_month p);
               d = (if p_day p < 0 then 1 else p_day p)
           in if d < 1 \<or> daysIn m (p_year p) < d then None
              else Some \<lparr>Year = p_year p, Month = m, Day = d, Hour = p_hour p,
                         Minute = p_min p, Second = p_sec p, Nanosecond = p_nsec p,
                         Offset = (if p_zoneOffset p = -1 then 0 else p_zoneOffset p)\<rparr>))"

subsection \<open>Detectors: \<^verbatim>\<open>regexp.FindStringIndex\<close>\<close>

text \<open>
  Every regular expression of the program is a sequence of character classes, each
  repeated a fixed number of times or once or more (greedily); capture groups do not
  change what \<^verbatim>\<open>FindStringIndex\<close> returns. A compiled expression is kept as that
  sequence. \<^verbatim>\<open>FindStringIndex\<close> returns the leftmost match, and at that offset the
  match a backtracking search finds first.
\<close>

datatype cclass =
    Digit      \<comment> \<open>\<^verbatim>\<open>\d\<close>\<close>
  | Letter     \<comment> \<open>\<^verbatim>\<open>[A-Za-z]\<close>\<close>
  | Sign       \<comment> \<open>\<^verbatim>\<open>[+-]\<close>\<close>
  | Ch char    \<comment> \<open>one literal character\<close>

datatype atom =
    Exactly cclass nat   \<comment> \<open>\<^verbatim>\<open>c{n}\<close>\<close>
  | OneOrMore cclass     \<comment> \<open>\<^verbatim>\<open>c+\<close>\<close>

fun inClass :: "cclass \<Rightarrow> char \<Rightarrow> bool" where
  "inClass Digit c = isDigit c"
| "inClass Letter c = (c \<in> set ''ABCDEFGHIJKLMNOPQRSTUVWXYZabcdefghijklmnopqrstuvwxyz'')"
| "inClass Sign c = (c = CHR ''+'' \<or> c = CHR ''-'')"
| "inClass (Ch x) c = (c = x)"

primrec tryLen :: "(string \<Rightarrow> nat option) \<Rightarrow> string \<Rightarrow> nat \<Rightarrow> nat option" where
  \<comment> \<open>the longest repetition count, from \<open>k\<close> down to 1, after which the rest matches\<close>
  "tryLen f s 0 = None"
| "tryLen f s (Suc k) =
     (case f (drop (Suc k) s) of
        Some m \<Rightarrow> Some (Suc k + m)
      | None \<Rightarrow> tryLen f s k)"

primrec matchHere :: "atom list \<Rightarrow> string \<Rightarrow> nat option" where
  \<comment> \<open>the length of the match that starts at the head of the string\<close>
  "matchHere [] = (\<lambda>s. Some 0)"
| "matchHere (a # as) =
     (\<lambda>s. case a of
        Exactly c n \<Rightarrow>
          if n \<le> length s \<and> list_all (inClass c) (take n s)
          then map_option (\<lambda>m. n + m) (matchHere as (drop n s))
          else None
      | OneOrMore c \<Rightarrow> tryLen (matchHere as) s (length (takeWhile (inClass c) s)))"

fun findAt :: "atom list \<Rightarrow> nat \<Rightarrow> string \<Rightarrow> (nat \<times> nat) option" where
  "findAt re i [] = map_option (\<lambda>m. (i, i + m)) (matchHere re [])"
| "findAt re i (c # cs) =
     (case matchHere re (c # cs) of
        Some m \<Rightarrow> Some (i, i + m)
      | None \<Rightarrow> findAt re (Suc i) cs)"

definition FindStringIndex :: "atom list \<Rightarrow> string \<Rightarrow> (nat \<times> nat) option" where
  \<comment> \<open>\<open>Some (loc0, loc1)\<close>: the leftmost match is \<open>s[loc0:loc1]\<close>; \<open>None\<close> is \<^verbatim>\<open>nil\<close>\<close>
  "FindStringIndex re s = findAt re 0 s"

subsection \<open>Files: \<^verbatim>\<open>os.Open\<close>, \<^verbatim>\<open>bufio.Scanner\<close>, \<^verbatim>\<open>filepath.Base\<close>\<close>

text \<open>
  The file system is a function from a path to the lines a scanner over that file
  yields before \<^verbatim>\<open>Scan\<close> first returns false (at the end of the file or at a read
  fault: \<^verbatim>\<open>readNextTimestamp\<close> does not tell the two apart); \<open>None\<close> is a file that
  cannot be opened. A scanner is the list of lines it has not yet yielded.
\<close>

type_synonym filesystem = "string \<Rightarrow> string list option"

definition filepath_Base :: "string \<Rightarrow> string" where
  \<comment> \<open>the last element of a slash-separated path, trailing slashes removed\<close>
  "filepath_Base path =
     (if path = [] then ''.''
      else (let q = dropWhile (\<lambda>c. c = CHR ''/'') (rev path)
            in if q = [] then ''/'' else rev (takeWhile (\<lambda>c. c \<noteq> CHR ''/'') q)))"

section \<open>The program: \<^verbatim>\<open>main.go\<close>\<close>

subsection \<open>Data\<close>

record lineStruct =
  timestamp :: Time
  filename :: string
  restOfLine :: string

record pattern =
  regex :: "atom list"
  layout :: "chunk list"

definition digits :: "nat \<Rightarrow> atom" where
  \<comment> \<open>\<^verbatim>\<open>\d{n}\<close>\<close>
  "digits n = Exactly Digit n"

definition lit :: "char \<Rightarrow> atom" where
  \<comment> \<open>one literal character\<close>
  "lit x = Exactly (Ch x) 1"

definition re_date :: "atom list" where
  \<comment> \<open>\<^verbatim>\<open>\d{4}-\d{2}-\d{2}\<close>\<close>
  "re_date = [digits 4, lit CHR ''-'', digits 2, lit CHR ''-'', digits 2]"

definition re_clock :: "atom list" where
  \<comment> \<open>\<^verbatim>\<open>\d{2}:\d{2}:\d{2}\<close>\<close>
  "re_clock = [digits 2, lit CHR '':'', digits 2, lit CHR '':'', digits 2]"

definition re_httpdate :: "atom list" where
  \<comment> \<open>\<^verbatim>\<open>\d{2}/[A-Za-z]{3}/\d{4}\<close>\<close>
  "re_httpdate = [digits 2, lit CHR ''/'', Exactly Letter 3, lit CHR ''/'', digits 4]"

definition re_zone :: "atom list" where
  \<comment> \<open>\<^verbatim>\<open> [+-]\d{4}\<close>\<close>
  "re_zone = [lit CHR '' '', Exactly Sign 1, digits 4]"

definition ly_date :: "chunk list" where
  \<comment> \<open>\<^verbatim>\<open>2006-01-02\<close>\<close>
  "ly_date = [StdYear, Lit ''-'', StdZeroMonth, Lit ''-'', StdZeroDay]"

definition ly_clock :: "chunk list" where
  \<comment> \<open>\<^verbatim>\<open>15:04:05\<close>\<close>
  "ly_clock = [StdHour, Lit '':'', StdZeroMinute, Lit '':'', StdZeroSecond]"

definition ly_httpdate :: "chunk list" where
  \<comment> \<open>\<^verbatim>\<open>02/Jan/2006\<close>\<close>
  "ly_httpdate = [StdZeroDay, Lit ''/'', StdMonth, Lit ''/'', StdYear]"

definition tp0 :: pattern where
  \<comment> \<open>\<^verbatim>\<open>([A-Za-z]{3} +\d+ \d{2}:\d{2}:\d{2})\<close>, \<^verbatim>\<open>Jan _2 15:04:05\<close>\<close>
  "tp0 =
    \<lparr>regex = [Exactly Letter 3, OneOrMore (Ch CHR '' ''), OneOrMore Digit, lit CHR '' ''] @ re_clock,
     layout = [StdMonth, Lit '' '', StdUnderDay, Lit '' ''] @ ly_clock\<rparr>"

definition tp1 :: pattern where
  \<comment> \<open>\<^verbatim>\<open>(\d{4}-\d{2}-\d{2} \d{2}:\d{2}:\d{2} [+-]\d{4})\<close>, \<^verbatim>\<open>2006-01-02 15:04:05 -0700\<close>\<close>
  "tp1 =
    \<lparr>regex = re_date @ [lit CHR '' ''] @ re_clock @ re_zone,
     layout = ly_date @ [Lit '' ''] @ ly_clock @ [Lit '' '', StdNumTZ]\<rparr>"

definition tp2 :: pattern where
  \<comment> \<open>\<^verbatim>\<open>(\d{4}-\d{2}-\d{2} \d{2}:\d{2}:\d{2},\d{3})\<close>, \<^verbatim>\<open>2006-01-02 15:04:05.000\<close>\<close>
  "tp2 =
    \<lparr>regex = re_date @ [lit CHR '' ''] @ re_clock @ [lit CHR '','', digits 3],
     layout = ly_date @ [Lit '' ''] @ ly_clock @ [StdFracSecond0 3]\<rparr>"

definition tp3 :: pattern where
  \<comment> \<open>\<^verbatim>\<open>(\d{4}-\d{2}-\d{2} \d{2}:\d{2}:\d{2}\.\d{3})\<close>, \<^verbatim>\<open>2006-01-02 15:04:05.000\<close>\<close>
  "tp3 =
    \<lparr>regex = re_date @ [lit CHR '' ''] @ re_clock @ [lit CHR ''.'', digits 3],
     layout = ly_date @ [Lit '' ''] @ ly_clock @ [StdFracSecond0 3]\<rparr>"

definition tp4 :: pattern where
  \<comment> \<open>\<^verbatim>\<open>(\d{4}-\d{2}-\d{2} \d{2}:\d{2}:\d{2})\<close>, \<^verbatim>\<open>2006-01-02 15:04:05\<close>\<close>
  "tp4 =
    \<lparr>regex = re_date @ [lit CHR '' ''] @ re_clock,
     layout = ly_date @ [Lit '' ''] @ ly_clock\<rparr>"

definition tp5 :: pattern where
  \<comment> \<open>\<^verbatim>\<open>(\d{4}-\d{2}-\d{2}T\d{2}:\d{2}:\d{2},\d{3})\<close>, \<^verbatim>\<open>2006-01-02T15:04:05.000\<close>\<close>
  "tp5 =
    \<lparr>regex = re_date @ [lit CHR ''T''] @ re_clock @ [lit CHR '','', digits 3],
     layout = ly_date @ [Lit ''T''] @ ly_clock @ [StdFracSecond0 3]\<rparr>"

definition tp6 :: pattern where
  \<comment> \<open>\<^verbatim>\<open>(\d{4}-\d{2}-\d{2}T\d{2}:\d{2}:\d{2}\.\d{3})\<close>, \<^verbatim>\<open>2006-01-02T15:04:05.000\<close>\<close>
  "tp6 =
    \<lparr>regex = re_date @ [lit CHR ''T''] @ re_clock @ [lit CHR ''.'', digits 3],
     layout = ly_date @ [Lit ''T''] @ ly_clock @ [StdFracSecond0 3]\<rparr>"

definition tp7 :: pattern where
  \<comment> \<open>\<^verbatim>\<open>(\d{4}-\d{2}-\d{2}T\d{2}:\d{2}:\d{2})\<close>, \<^verbatim>\<open>2006-01-02T15:04:05\<close>\<close>
  "tp7 =
    \<lparr>regex = re_date @ [lit CHR ''T''] @ re_clock,
     layout = ly_date @ [Lit ''T''] @ ly_clock\<rparr>"

definition tp8 :: pattern where
  \<comment> \<open>\<^verbatim>\<open>(\d{2}/[A-Za-z]{3}/\d{4} \d{2}:\d{2}:\d{2})\<close>, \<^verbatim>\<open>02/Jan/2006 15:04:05\<close>\<close>
  "tp8 =
    \<lparr>regex = re_httpdate @ [lit CHR '' ''] @ re_clock,
     layout = ly_httpdate @ [Lit '' ''] @ ly_clock\<rparr>"

definition tp9 :: pattern where
  \<comment> \<open>\<^verbatim>\<open>(\d{2}/[A-Za-z]{3}/\d{4}:\d{2}:\d{2}:\d{2} [+-]\d{4})\<close>, \<^verbatim>\<open>02/Jan/2006:15:04:05 -0700\<close>\<close>
  "tp9 =
    \<lparr>regex = re_httpdate @ [lit CHR '':''] @ re_clock @ re_zone,
     layout = ly_httpdate @ [Lit '':''] @ ly_clock @ [Lit '' '', StdNumTZ]\<rparr>"

definition tp10 :: pattern where
  \<comment> \<open>\<^verbatim>\<open>(\d{2}:\d{2}:\d{2}\.\d{6})\<close>, \<^verbatim>\<open>15:04:05.000000\<close>\<close>
  "tp10 =
    \<lparr>regex = re_clock @ [lit CHR ''.'', digits 6],
     layout = ly_clock @ [StdFracSecond0 6]\<rparr>"

definition tp11 :: pattern where
  \<comment> \<open>\<^verbatim>\<open>(\d+) (\d{2}:\d{2}:\d{2}\.\d{6})\<close>, \<^verbatim>\<open>15:04:05.000000\<close> (strace format)\<close>
  "tp11 =
    \<lparr>regex = [OneOrMore Digit, lit CHR '' ''] @ re_clock @ [lit CHR ''.'', digits 6],
     layout = ly_clock @ [StdFracSecond0 6]\<rparr>"

definition timestampPatterns :: "pattern list" where
  "timestampPatterns = [tp0, tp1, tp2, tp3, tp4, tp5, tp6, tp7, tp8, tp9, tp10, tp11]"

datatype error =
    NoTimestampError    \<comment> \<open>\<^verbatim>\<open>errors.New("no Timestamp in Line")\<close>\<close>
  | EndOfFileError      \<comment> \<open>\<^verbatim>\<open>errors.New("end of file")\<close>\<close>
  | OpenError           \<comment> \<open>the error of a failed \<^verbatim>\<open>os.Open\<close>\<close>

text \<open>
  The package-level variables. \<open>currentYear\<close> is set once, when the process starts, and
  never written again. The counters are Go \<^verbatim>\<open>int\<close>s that only count lines read, so
  they are kept as naturals.
\<close>

record globals =
  logFormatIndexes :: "nat \<rightharpoonup> nat"
  currentYear :: int
  processedLines :: nat
  cacheHits :: nat

type_synonym result = "Time \<times> string \<times> error option"

subsection \<open>\<^verbatim>\<open>findBestMatch\<close>\<close>

type_synonym best = "nat \<times> (nat \<times> nat) option \<times> error option"

fun findBestMatchFrom :: "nat \<Rightarrow> pattern list \<Rightarrow> string \<Rightarrow> best \<Rightarrow> best" where
  \<comment> \<open>the \<^verbatim>\<open>for i, pattern := range timestampPatterns\<close> loop, from index \<open>i\<close> on, over
      the named results \<open>(index, resLoc, err)\<close>\<close>
  "findBestMatchFrom i [] line best = best"
| "findBestMatchFrom i (pattern # rest) line (index, resLoc, err) =
     (case FindStringIndex (regex pattern) line of
        None \<Rightarrow> findBestMatchFrom (Suc i) rest line (index, resLoc, err)
      | Some loc \<Rightarrow>
          if (case resLoc of
                None \<Rightarrow> True
              | Some r \<Rightarrow> fst loc < fst r
                         \<or> int (snd r) - int (fst r) < int (snd loc) - int (fst loc))
          then findBestMatchFrom (Suc i) rest line (i, Some loc, None)
          else findBestMatchFrom (Suc i) rest line (index, resLoc, err))"

definition findBestMatch :: "string \<Rightarrow> best" where
  "findBestMatch line = findBestMatchFrom 0 timestampPatterns line (0, None, Some NoTimestampError)"

subsection \<open>\<^verbatim>\<open>extractTimestamp\<close>\<close>

definition slice :: "string \<Rightarrow> nat \<Rightarrow> nat \<Rightarrow> string" where
  \<comment> \<open>\<^verbatim>\<open>line[a:b]\<close>, for \<open>a \<le> b \<le> length line\<close> (Go panics otherwise; a location returned by
      \<^verbatim>\<open>FindStringIndex\<close> is always in range)\<close>
  "slice line a b = take (b - a) (drop a line)"

definition extractTimestamp :: "int \<Rightarrow> string \<Rightarrow> nat \<times> nat \<Rightarrow> chunk list \<Rightarrow> result" where
  \<comment> \<open>the first argument is the package variable \<^verbatim>\<open>currentYear\<close>\<close>
  "extractTimestamp cy line loc lay =
     (case time_Parse lay (slice line (fst loc) (snd loc)) of
        None \<Rightarrow> (zeroTime, line, Some NoTimestampError)
      | Some ts \<Rightarrow>
          ((if Year ts = 0 then AddDate ts cy else ts),
           take (fst loc) line @ drop (snd loc) line,
           None))"

subsection \<open>\<^verbatim>\<open>parseLogLine\<close>\<close>

definition fullScan :: "string \<Rightarrow> nat \<Rightarrow> globals \<Rightarrow> result \<times> globals" where
  \<comment> \<open>lines 96 to 104: the scan of all patterns. The inner \<^verbatim>\<open>err\<close> of
      \<^verbatim>\<open>extractTimestamp\<close> shadows the outer one; the function returns
      \<^verbatim>\<open>timestamp, remaining, nil\<close> whatever the inner \<^verbatim>\<open>err\<close> is.\<close>
  "fullScan line fileIndex g =
     (case findBestMatch line of
        (patternIndex, Some loc, None) \<Rightarrow>
          (case extractTimestamp (currentYear g) line loc (layout (timestampPatterns ! patternIndex)) of
             (ts, remaining, err) \<Rightarrow>
               ((ts, remaining, None),
                if err = None
                then g\<lparr>logFormatIndexes := (logFormatIndexes g)(fileIndex \<mapsto> patternIndex)\<rparr>
                else g))
      | _ \<Rightarrow> ((zeroTime, line, Some NoTimestampError), g))"

definition parseLogLine :: "string \<Rightarrow> nat \<Rightarrow> globals \<Rightarrow> result \<times> globals" where
  "parseLogLine line fileIndex g0 =
     (let g = g0\<lparr>processedLines := processedLines g0 + 1\<rparr> in
      case logFormatIndexes g fileIndex of
        None \<Rightarrow> fullScan line fileIndex g
      | Some idx \<Rightarrow>
          (case FindStringIndex (regex (timestampPatterns ! idx)) line of
             None \<Rightarrow> fullScan line fileIndex g
           | Some loc \<Rightarrow>
               (case extractTimestamp (currentYear g) line loc (layout (timestampPatterns ! idx)) of
                  (ts, remaining, err) \<Rightarrow>
                    ((ts, remaining, err),
                     if err = None then g\<lparr>cacheHits := cacheHits g + 1\<rparr> else g))))"

subsection \<open>\<^verbatim>\<open>readNextTimestamp\<close>\<close>

fun readNextTimestamp :: "string list \<Rightarrow> nat \<Rightarrow> globals \<Rightarrow> result \<times> string list \<times> globals" where
  \<comment> \<open>returns the scanner as it is left and the package variables as they are left\<close>
  "readNextTimestamp [] fileIndex g = ((zeroTime, '''', Some EndOfFileError), [], g)"
| "readNextTimestamp (text # scanner) fileIndex g =
     (case parseLogLine text fileIndex g of
        ((ts, rest, err), g') \<Rightarrow>
          if err = None then ((ts, rest, None), scanner, g')
          else if err = Some NoTimestampError
            then ((zeroTime, rest, Some NoTimestampError), scanner, g')
          else readNextTimestamp scanner fileIndex g')"

subsection \<open>\<^verbatim>\<open>getFilenamePrefix\<close>\<close>

definition getFilenamePrefix :: "string \<Rightarrow> string" where
  "getFilenamePrefix name =
     (if 20 < length name then drop (length name - 20) name else name)"

subsection \<open>\<^verbatim>\<open>mergeLogs\<close>: the state and one pass of the loop\<close>

text \<open>
  \<^verbatim>\<open>mergeLogs\<close> allocates five slices of length \<^verbatim>\<open>len(allFiles)\<close>
  (\<^verbatim>\<open>scanners\<close>, \<^verbatim>\<open>filenames\<close>, \<^verbatim>\<open>fileErrors\<close>, \<^verbatim>\<open>timestamps\<close>, \<^verbatim>\<open>restOfLines\<close>)
  and only ever reads and writes them at one common index. They are kept as one list of
  rows: field \<open>scanners\<close> of row \<open>i\<close> is \<^verbatim>\<open>scanners[i]\<close>, and so on. A \<^verbatim>\<open>nil\<close> scanner is
  \<open>None\<close>, a \<^verbatim>\<open>nil\<close> error is \<open>None\<close>. The unbuffered channel \<^verbatim>\<open>ch\<close> is the list of the
  records sent on it, in the order sent (the consumer in \<^verbatim>\<open>main\<close> receives every one);
  logging and \<^verbatim>\<open>verbose\<close> have no effect on what is sent and are left out.
\<close>

record row =
  scanners :: "string list option"
  filenames :: string
  fileErrors :: "error option"
  timestamps :: Time
  restOfLines :: string

record mstate =
  rows :: "row list"
  vars :: globals

fun findEarliestFrom :: "nat \<Rightarrow> row list \<Rightarrow> (nat \<times> Time) option \<Rightarrow> (nat \<times> Time) option" where
  \<comment> \<open>lines 171 to 179, from index \<open>i\<close> on. \<open>None\<close> is \<^verbatim>\<open>found == false\<close>,
      \<open>Some (earliestIndex, earliestTime)\<close> is \<^verbatim>\<open>found == true\<close>.\<close>
  "findEarliestFrom i [] acc = acc"
| "findEarliestFrom i (r # rs) acc =
     findEarliestFrom (Suc i) rs
       (if fileErrors r = None then
          (case acc of
             None \<Rightarrow> Some (i, timestamps r)
           | Some (earliestIndex, earliestTime) \<Rightarrow>
               if Before (timestamps r) earliestTime then Some (i, timestamps r) else acc)
        else acc)"

definition findEarliest :: "row list \<Rightarrow> (nat \<times> Time) option" where
  "findEarliest rs = findEarliestFrom 0 rs None"

datatype step =
    Break                          \<comment> \<open>the loop is left\<close>
  | Next "lineStruct list" mstate  \<comment> \<open>what the iteration sent, and the state it leaves\<close>
  | Panic "lineStruct list"        \<comment> \<open>a \<^verbatim>\<open>nil\<close> scanner is dereferenced after the send\<close>

definition iteration :: "Time \<Rightarrow> Time \<Rightarrow> mstate \<Rightarrow> step" where
  \<comment> \<open>one pass of the body of the \<^verbatim>\<open>for\<close> loop, lines 166 to 208\<close>
  "iteration startTime endTime s =
     (case findEarliest (rows s) of
        None \<Rightarrow> Break
      | Some (earliestIndex, earliestTime) \<Rightarrow>
          if \<not> IsZero endTime \<and> After earliestTime endTime then Break
          else
            (let r = rows s ! earliestIndex;
                 sent = (if IsZero startTime \<or> \<not> Before earliestTime startTime
                         then [\<lparr>timestamp = earliestTime, filename = filenames r,
                                 restOfLine = restOfLines r\<rparr>]
                         else [])
             in if fileErrors r = None then
                  (case scanners r of
                     None \<Rightarrow> Panic sent
                   | Some scanner \<Rightarrow>
                       (case readNextTimestamp scanner earliestIndex (vars s) of
                          ((newts, rest, err), scanner', g') \<Rightarrow>
                            (let r1 = r\<lparr>scanners := Some scanner', restOfLines := rest\<rparr>;
                                 r2 = (if err = None then r1\<lparr>timestamps := newts\<rparr>
                                       else if err \<noteq> Some NoTimestampError
                                         then r1\<lparr>fileErrors := err\<rparr>
                                       else r1)
                             in Next sent \<lparr>rows = (rows s)[earliestIndex := r2], vars = g'\<rparr>)))
                else Next sent s))"

definition weight :: "mstate \<Rightarrow> nat" where
  \<comment> \<open>the lines not yet read, plus the sources not yet retired\<close>
  "weight s =
     sum_list (map (\<lambda>r. (case scanners r of None \<Rightarrow> 0 | Some sc \<Rightarrow> length sc)
                        + (if fileErrors r = None then 1 else 0)) (rows s))"

subsection \<open>Facts the termination of the loop rests on\<close>

lemma extractTimestamp_err:
  "extractTimestamp cy line loc lay = (ts, rem, err) \<Longrightarrow> err = None \<or> err = Some NoTimestampError"
  by (auto simp: extractTimestamp_def split: option.splits)

lemma fullScan_err:
  "fullScan line i g = ((ts, rem, err), g') \<Longrightarrow> err = None \<or> err = Some NoTimestampError"
  by (auto simp: fullScan_def split: prod.splits option.splits if_splits)

lemma parseLogLine_err:
  "parseLogLine line i g = ((ts, rem, err), g') \<Longrightarrow> err = None \<or> err = Some NoTimestampError"
  by (auto simp: parseLogLine_def Let_def split: prod.splits option.splits if_splits
           dest: fullScan_err extractTimestamp_err)

lemma readNextTimestamp_Nil:
  "readNextTimestamp [] i g = ((zeroTime, [], Some EndOfFileError), [], g)"
  by simp

lemma readNextTimestamp_Cons:
  "readNextTimestamp (l # sc) i g =
     (case parseLogLine l i g of
        ((ts, rest, err), g') \<Rightarrow>
          ((if err = None then ts else zeroTime, rest, err), sc, g'))"
  by (auto split: prod.splits dest: parseLogLine_err)

lemma findEarliestFrom_None:
  "findEarliestFrom i rs acc = None \<longleftrightarrow> acc = None \<and> (\<forall>r \<in> set rs. fileErrors r \<noteq> None)"
  by (induction rs arbitrary: i acc) (auto split: option.splits)

lemma findEarliestFrom_Some:
  "findEarliestFrom i rs acc = Some (e, t) \<Longrightarrow>
     acc = Some (e, t) \<or>
     (i \<le> e \<and> e < i + length rs \<and> fileErrors (rs ! (e - i)) = None \<and> t = timestamps (rs ! (e - i)))"
proof (induction rs arbitrary: i acc)
  case Nil
  then show ?case by simp
next
  case (Cons r rs)
  from Cons.prems have
    "findEarliestFrom (Suc i) rs
       (if fileErrors r = None then
          (case acc of None \<Rightarrow> Some (i, timestamps r)
           | Some (earliestIndex, earliestTime) \<Rightarrow>
               if Before (timestamps r) earliestTime then Some (i, timestamps r) else acc)
        else acc) = Some (e, t)" by simp
  from Cons.IH[OF this] show ?case
    by (auto split: if_splits option.splits simp: nth_Cons')
qed

lemma findEarliestFrom_min:
  "findEarliestFrom i rs acc = Some (e, t) \<Longrightarrow>
     (\<forall>e' t'. acc = Some (e', t') \<longrightarrow> instant t \<le> instant t') \<and>
     (\<forall>r \<in> set rs. fileErrors r = None \<longrightarrow> instant t \<le> instant (timestamps r))"
proof (induction rs arbitrary: i acc)
  case Nil
  then show ?case by simp
next
  case (Cons r rs)
  from Cons.prems have
    "findEarliestFrom (Suc i) rs
       (if fileErrors r = None then
          (case acc of None \<Rightarrow> Some (i, timestamps r)
           | Some (earliestIndex, earliestTime) \<Rightarrow>
               if Before (timestamps r) earliestTime then Some (i, timestamps r) else acc)
        else acc) = Some (e, t)" by simp
  from Cons.IH[OF this] show ?case
    by (auto split: if_splits option.splits simp: Before_def)
qed

lemma findEarliest_Some:
  assumes "findEarliest rs = Some (e, t)"
  shows "e < length rs" and "fileErrors (rs ! e) = None" and "t = timestamps (rs ! e)"
    and "\<And>j. j < length rs \<Longrightarrow> fileErrors (rs ! j) = None \<Longrightarrow> instant t \<le> instant (timestamps (rs ! j))"
  using findEarliestFrom_Some[of 0 rs None e t] findEarliestFrom_min[of 0 rs None e t] assms
  by (auto simp: findEarliest_def)

lemma findEarliest_None:
  "findEarliest rs = None \<longleftrightarrow> (\<forall>r \<in> set rs. fileErrors r \<noteq> None)"
  by (simp add: findEarliest_def findEarliestFrom_None)

lemma iteration_Next:
  assumes "iteration st en s = Next sent s'"
  obtains e t sc ts rest err sc' g' where
    "findEarliest (rows s) = Some (e, t)"
    "IsZero en \<or> \<not> After t en"
    "scanners (rows s ! e) = Some sc"
    "readNextTimestamp sc e (vars s) = ((ts, rest, err), sc', g')"
    "sent = (if IsZero st \<or> \<not> Before t st
             then [\<lparr>timestamp = t, filename = filenames (rows s ! e),
                     restOfLine = restOfLines (rows s ! e)\<rparr>]
             else [])"
    "s' = \<lparr>rows = (rows s)[e :=
             (if err = None
                then (rows s ! e)\<lparr>scanners := Some sc', restOfLines := rest, timestamps := ts\<rparr>
              else if err \<noteq> Some NoTimestampError
                then (rows s ! e)\<lparr>scanners := Some sc', restOfLines := rest, fileErrors := err\<rparr>
              else (rows s ! e)\<lparr>scanners := Some sc', restOfLines := rest\<rparr>)],
           vars = g'\<rparr>"
proof -
  from assms obtain e t where fe: "findEarliest (rows s) = Some (e, t)"
    by (auto simp: iteration_def split: option.splits)
  note al = findEarliest_Some(2)[OF fe]
  from assms fe have en: "IsZero en \<or> \<not> After t en"
    by (auto simp: iteration_def split: if_splits)
  from assms fe en al obtain sc where sc: "scanners (rows s ! e) = Some sc"
    by (auto simp: iteration_def Let_def split: option.splits if_splits)
  obtain ts rest err sc' g' where rd: "readNextTimestamp sc e (vars s) = ((ts, rest, err), sc', g')"
    by (metis prod_cases3)
  from assms fe en al sc rd show thesis
    by (intro that[OF fe en sc rd]) (auto simp: iteration_def Let_def split: if_splits)
qed

lemma sum_list_map_update_less:
  fixes f :: "'a \<Rightarrow> nat"
  shows "e < length xs \<Longrightarrow> f y < f (xs ! e) \<Longrightarrow> sum_list (map f (xs[e := y])) < sum_list (map f xs)"
proof (induction xs arbitrary: e)
  case Nil
  then show ?case by simp
next
  case (Cons x xs)
  then show ?case by (cases e) auto
qed

lemma readNextTimestamp_shrinks:
  assumes "readNextTimestamp sc e g = ((ts, rest, err), sc', g')"
  shows "(err = Some EndOfFileError \<and> sc = [] \<and> sc' = []) \<or>
         ((err = None \<or> err = Some NoTimestampError) \<and> length sc' < length sc)"
proof (cases sc)
  case Nil
  with assms show ?thesis by simp
next
  case (Cons l ls)
  with assms show ?thesis
    by (auto simp: readNextTimestamp_Cons split: prod.splits dest: parseLogLine_err)
qed

lemma iteration_weight:
  assumes "iteration st en s = Next sent s'"
  shows "weight s' < weight s"
proof -
  from assms obtain e t sc ts rest err sc' g' where
    fe: "findEarliest (rows s) = Some (e, t)" and
    sc: "scanners (rows s ! e) = Some sc" and
    rd: "readNextTimestamp sc e (vars s) = ((ts, rest, err), sc', g')" and
    s': "s' = \<lparr>rows = (rows s)[e :=
             (if err = None
                then (rows s ! e)\<lparr>scanners := Some sc', restOfLines := rest, timestamps := ts\<rparr>
              else if err \<noteq> Some NoTimestampError
                then (rows s ! e)\<lparr>scanners := Some sc', restOfLines := rest, fileErrors := err\<rparr>
              else (rows s ! e)\<lparr>scanners := Some sc', restOfLines := rest\<rparr>)],
           vars = g'\<rparr>"
    by (rule iteration_Next)
  note e = findEarliest_Some(1,2)[OF fe]
  show ?thesis
    unfolding weight_def s' using readNextTimestamp_shrinks[OF rd] e sc
    by (auto intro!: sum_list_map_update_less)
qed

subsection \<open>The loop and \<^verbatim>\<open>mergeLogs\<close> as a whole\<close>

text \<open>
  The \<^verbatim>\<open>for\<close> loop of lines 165 to 209. It ends: every pass that does not leave the
  loop reads a line or retires a source.
\<close>

function mergeLoop :: "Time \<Rightarrow> Time \<Rightarrow> mstate \<Rightarrow> lineStruct list" where
  "mergeLoop startTime endTime s =
     (case iteration startTime endTime s of
        Break \<Rightarrow> []
      | Panic sent \<Rightarrow> sent
      | Next sent s' \<Rightarrow> sent @ mergeLoop startTime endTime s')"
  by pat_completeness auto
termination
  by (relation "measure (\<lambda>(startTime, endTime, s). weight s)") (auto simp: iteration_weight)

definition openAll :: "filesystem \<Rightarrow> string list \<Rightarrow> row list" where
  \<comment> \<open>lines 138 to 156: the slices as they are before the first read\<close>
  "openAll fs allFiles =
     map (\<lambda>file.
            case fs file of
              None \<Rightarrow> \<lparr>scanners = None, filenames = '''', fileErrors = Some OpenError,
                       timestamps = zeroTime, restOfLines = ''''\<rparr>
            | Some lines \<Rightarrow> \<lparr>scanners = Some lines, filenames = filepath_Base file,
                             fileErrors = None, timestamps = zeroTime, restOfLines = ''''\<rparr>)
         allFiles"

definition seed :: "nat \<Rightarrow> mstate \<Rightarrow> mstate" where
  \<comment> \<open>lines 160 to 162: the first read of source \<open>i\<close>\<close>
  "seed i s =
     (case scanners (rows s ! i) of
        None \<Rightarrow> s
      | Some scanner \<Rightarrow>
          (case readNextTimestamp scanner i (vars s) of
             ((ts, rest, err), scanner', g') \<Rightarrow>
               \<lparr>rows = (rows s)[i := (rows s ! i)\<lparr>scanners := Some scanner', timestamps := ts,
                                                  restOfLines := rest, fileErrors := err\<rparr>],
                vars = g'\<rparr>))"

definition seedAll :: "filesystem \<Rightarrow> globals \<Rightarrow> string list \<Rightarrow> mstate" where
  \<comment> \<open>lines 138 to 163: the state in which the \<^verbatim>\<open>for\<close> loop is entered\<close>
  "seedAll fs g allFiles =
     fold seed [0..<length allFiles] \<lparr>rows = openAll fs allFiles, vars = g\<rparr>"

definition mergeLogs ::
  "filesystem \<Rightarrow> globals \<Rightarrow> string list \<Rightarrow> Time \<Rightarrow> Time \<Rightarrow> lineStruct list" where
  \<comment> \<open>the records sent on \<^verbatim>\<open>ch\<close>, given the file system and the package variables\<close>
  "mergeLogs fs g allFiles startTime endTime =
     mergeLoop startTime endTime (seedAll fs g allFiles)"

section \<open>What each source is expected to contribute\<close>

text \<open>
  The records of one source, read on its own: a line classified as timestamped gives its
  instant and remainder; any other line gives the instant of the nearest timestamped line
  before it (\<open>prev\<close>) and the text \<^verbatim>\<open>parseLogLine\<close> returns for it. \<open>carry\<close> lists the
  records of the lines after the first one that was timestamped; \<open>sourceRecords\<close> lists
  the records of a whole file, which are none when the first line is not timestamped.
  \<open>sourceInstants\<close> lists the instants of the timestamped lines only.
\<close>

fun carry :: "nat \<Rightarrow> globals \<Rightarrow> Time \<Rightarrow> string list \<Rightarrow> (Time \<times> string) list" where
  "carry i g prev [] = []"
| "carry i g prev (l # ls) =
     (case parseLogLine l i g of
        ((ts, rest, err), g') \<Rightarrow>
          if err = None then (ts, rest) # carry i g' ts ls
          else (prev, rest) # carry i g' prev ls)"

definition sourceRecords :: "nat \<Rightarrow> globals \<Rightarrow> string list \<Rightarrow> (Time \<times> string) list" where
  "sourceRecords i g lines =
     (case lines of
        [] \<Rightarrow> []
      | l # ls \<Rightarrow>
          (case parseLogLine l i g of
             ((ts, rest, err), g') \<Rightarrow>
               if err = None then (ts, rest) # carry i g' ts ls else []))"

fun sourceInstants :: "nat \<Rightarrow> globals \<Rightarrow> string list \<Rightarrow> Time list" where
  "sourceInstants i g [] = []"
| "sourceInstants i g (l # ls) =
     (case parseLogLine l i g of
        ((ts, rest, err), g') \<Rightarrow>
          (if err = None then [ts] else []) @ sourceInstants i g' ls)"

definition inWindow :: "Time \<Rightarrow> Time \<Rightarrow> Time \<Rightarrow> bool" where
  \<comment> \<open>a zero bound is a bound that is not configured\<close>
  "inWindow startTime endTime t =
     ((IsZero startTime \<or> instant startTime \<le> instant t)
      \<and> (IsZero endTime \<or> instant t \<le> instant endTime))"

definition mkLine :: "string \<Rightarrow> Time \<times> string \<Rightarrow> lineStruct" where
  "mkLine name rec = \<lparr>timestamp = fst rec, filename = name, restOfLine = snd rec\<rparr>"

definition pending :: "mstate \<Rightarrow> nat \<Rightarrow> (Time \<times> string) list" where
  \<comment> \<open>the record a source holds and the records of the lines it has not read yet; none
      for a retired source\<close>
  "pending s i =
     (let r = rows s ! i in
      case (fileErrors r, scanners r) of
        (None, Some sc) \<Rightarrow> (timestamps r, restOfLines r) # carry i (vars s) (timestamps r) sc
      | _ \<Rightarrow> [])"

definition wf :: "mstate \<Rightarrow> bool" where
  \<comment> \<open>a source that is not retired has a scanner\<close>
  "wf s = list_all (\<lambda>r. fileErrors r \<noteq> None \<or> scanners r \<noteq> None) (rows s)"

definition rowSorted :: "nat \<Rightarrow> globals \<Rightarrow> row \<Rightarrow> bool" where
  \<comment> \<open>the instant a source holds and the instants of its timestamped lines still to be
      read never decrease\<close>
  "rowSorted i g r =
     (case (fileErrors r, scanners r) of
        (None, Some sc) \<Rightarrow> sorted (map instant (timestamps r # sourceInstants i g sc))
      | _ \<Rightarrow> True)"

definition mono :: "mstate \<Rightarrow> bool" where
  "mono s = list_all (\<lambda>i. rowSorted i (vars s) (rows s ! i)) [0..<length (rows s)]"

definition expected :: "Time \<Rightarrow> Time \<Rightarrow> mstate \<Rightarrow> lineStruct list" where
  \<comment> \<open>source after source, the records inside the window that the state still holds\<close>
  "expected startTime endTime s =
     concat (map (\<lambda>i. filter (\<lambda>r. inWindow startTime endTime (timestamp r))
                          (map (mkLine (filenames (rows s ! i))) (pending s i)))
                 [0..<length (rows s)])"

definition seeded :: "filesystem \<Rightarrow> globals \<Rightarrow> string list \<Rightarrow> nat \<Rightarrow> mstate \<Rightarrow> bool" where
  \<comment> \<open>what the first read leaves in row \<open>i\<close>, in terms of the file of source \<open>i\<close> and the
      package variables \<open>g\<close> the merge started with\<close>
  "seeded fs g allFiles i s =
     ((fileErrors (rows s ! i) \<noteq> None \<or> scanners (rows s ! i) \<noteq> None)
      \<and> (case fs (allFiles ! i) of
            None \<Rightarrow> pending s i = []
          | Some lines \<Rightarrow>
              pending s i = sourceRecords i g lines
              \<and> filenames (rows s ! i) = filepath_Base (allFiles ! i)
              \<and> (sorted (map instant (sourceInstants i g lines))
                   \<longrightarrow> rowSorted i (vars s) (rows s ! i))
              \<and> (case lines of
                    [] \<Rightarrow> True
                  | l # ls \<Rightarrow>
                      snd (snd (fst (parseLogLine l i g))) = Some NoTimestampError
                      \<longrightarrow> fileErrors (rows s ! i) = Some NoTimestampError)))"

definition contribution ::
  "filesystem \<Rightarrow> globals \<Rightarrow> string list \<Rightarrow> Time \<Rightarrow> Time \<Rightarrow> nat \<Rightarrow> lineStruct list" where
  \<comment> \<open>the records of source \<open>i\<close> that lie inside the window, under the name of its file\<close>
  "contribution fs g allFiles startTime endTime i =
     (case fs (allFiles ! i) of
        None \<Rightarrow> []
      | Some lines \<Rightarrow>
          filter (\<lambda>r. inWindow startTime endTime (timestamp r))
            (map (mkLine (filepath_Base (allFiles ! i))) (sourceRecords i g lines)))"

definition sourcesSorted :: "filesystem \<Rightarrow> globals \<Rightarrow> string list \<Rightarrow> bool" where
  \<comment> \<open>in every file that opens, the instants of the timestamped lines never decrease\<close>
  "sourcesSorted fs g allFiles =
     list_all (\<lambda>i. case fs (allFiles ! i) of
                      None \<Rightarrow> True
                    | Some lines \<Rightarrow> sorted (map instant (sourceInstants i g lines)))
              [0..<length allFiles]"

definition hintsValid :: "globals \<Rightarrow> bool" where
  \<comment> \<open>every stored hint is an index into the pattern table\<close>
  "hintsValid g = (\<forall>i idx. logFormatIndexes g i = Some idx \<longrightarrow> idx < length timestampPatterns)"

definition agree :: "nat \<Rightarrow> globals \<Rightarrow> globals \<Rightarrow> bool" where
  \<comment> \<open>two values of the package variables that classify the lines of source \<open>i\<close> alike\<close>
  "agree i g h = (logFormatIndexes g i = logFormatIndexes h i \<and> currentYear g = currentYear h)"

section \<open>A small run, used to try the properties on\<close>

text \<open>
  Five paths. \<^verbatim>\<open>a.log\<close> has a continuation line between two timestamped lines,
  \<^verbatim>\<open>b.log\<close> has one line, \<^verbatim>\<open>c.log\<close> starts with a line that has no timestamp,
  \<^verbatim>\<open>d.log\<close> cannot be opened and \<^verbatim>\<open>e.log\<close> is empty.
\<close>

definition ex_fs :: filesystem where
  "ex_fs =
     [''logs/a.log'' \<mapsto> [''2024-01-01 10:00:00 hello'', ''  continued'',
                          ''2024-01-01 10:00:05 world''],
      ''logs/b.log'' \<mapsto> [''2024-01-01 10:00:02 foo''],
      ''logs/c.log'' \<mapsto> [''no timestamp here'', ''2024-01-01 10:00:01 never shown''],
      ''logs/e.log'' \<mapsto> []]"

definition ex_files :: "string list" where
  "ex_files = [''logs/a.log'', ''logs/b.log'', ''logs/c.log'', ''logs/d.log'', ''logs/e.log'']"

definition ex_g :: globals where
  "ex_g = \<lparr>logFormatIndexes = Map.empty, currentYear = 2024, processedLines = 0, cacheHits = 0\<rparr>"

definition ex_at :: "int \<Rightarrow> Time" where
  \<comment> \<open>January 1, 2024, 10:00 and the given seconds, UTC\<close>
  "ex_at sec = \<lparr>Year = 2024, Month = 1, Day = 1, Hour = 10, Minute = 0, Second = sec,
                Nanosecond = 0, Offset = 0\<rparr>"

definition ex_early :: Time where
  \<comment> \<open>January 1, 2024, 09:00:00 UTC\<close>
  "ex_early = \<lparr>Year = 2024, Month = 1, Day = 1, Hour = 9, Minute = 0, Second = 0,
                Nanosecond = 0, Offset = 0\<rparr>"

section \<open>Properties\<close>

subsection \<open>A location returned by a detector lies inside the line\<close>

lemma tryLen_Some:
  "tryLen f s k = Some m \<Longrightarrow> \<exists>j m'. 0 < j \<and> j \<le> k \<and> f (drop j s) = Some m' \<and> m = j + m'"
proof (induction k)
  case 0
  then show ?case by simp
next
  case (Suc k)
  show ?case
  proof (cases "f (drop (Suc k) s)")
    case None
    with Suc.prems have "tryLen f s k = Some m" by simp
    from Suc.IH[OF this] obtain j m' where
      "0 < j" "j \<le> k" "f (drop j s) = Some m'" "m = j + m'" by blast
    then have "0 < j \<and> j \<le> Suc k \<and> f (drop j s) = Some m' \<and> m = j + m'" by simp
    then show ?thesis by blast
  next
    case (Some m')
    with Suc.prems have "m = Suc k + m'" by simp
    with Some show ?thesis by blast
  qed
qed

lemma matchHere_le: "matchHere re s = Some m \<Longrightarrow> m \<le> length s"
proof (induction re arbitrary: s m)
  case Nil
  then show ?case by simp
next
  case (Cons a as)
  show ?case
  proof (cases a)
    case (Exactly cl n)
    with Cons.prems obtain m' where n: "n \<le> length s" and m': "matchHere as (drop n s) = Some m'"
      and m: "m = n + m'"
      by (auto split: if_splits)
    from Cons.IH[OF m'] n m show ?thesis by simp
  next
    case (OneOrMore cl)
    with Cons.prems have "tryLen (matchHere as) s (length (takeWhile (inClass cl) s)) = Some m"
      by simp
    from tryLen_Some[OF this] obtain j m' where
      j: "j \<le> length (takeWhile (inClass cl) s)" and m': "matchHere as (drop j s) = Some m'"
      and m: "m = j + m'" by blast
    have "length (takeWhile (inClass cl) s) \<le> length s" by (rule length_takeWhile_le)
    with j have "j \<le> length s" by simp
    with Cons.IH[OF m'] m show ?thesis by simp
  qed
qed

lemma findAt_bounds: "findAt re i s = Some (a, b) \<Longrightarrow> i \<le> a \<and> a \<le> b \<and> b \<le> i + length s"
proof (induction s arbitrary: i)
  case Nil
  then show ?case by (auto dest: matchHere_le)
next
  case (Cons x xs)
  show ?case
  proof (cases "matchHere re (x # xs)")
    case None
    with Cons.prems have "findAt re (Suc i) xs = Some (a, b)" by simp
    from Cons.IH[OF this] show ?thesis by simp
  next
    case (Some m)
    with Cons.prems matchHere_le[OF Some] show ?thesis by auto
  qed
qed

lemma FindStringIndex_bounds:
  "FindStringIndex re s = Some (a, b) \<Longrightarrow> a \<le> b \<and> b \<le> length s"
  using findAt_bounds[of re 0 s a b] by (simp add: FindStringIndex_def)

lemma reinsert_slice:
  assumes ab: "a \<le> b" and b: "b \<le> length line"
  shows "take a (take a line @ drop b line) @ slice line a b @ drop a (take a line @ drop b line)
         = line"
proof -
  from ab b have l: "length (take a line) = a" by simp
  have 1: "take a (take a line @ drop b line) = take a line"
    using l by simp
  have 2: "drop a (take a line @ drop b line) = drop b line"
    using l by simp
  have "slice line a b @ drop (b - a) (drop a line) = drop a line"
    unfolding slice_def by (rule append_take_drop_id)
  moreover from ab have "drop (b - a) (drop a line) = drop b line" by simp
  ultimately have "slice line a b @ drop b line = drop a line" by simp
  then have "take a line @ slice line a b @ drop b line = take a line @ drop a line" by simp
  then have 3: "take a line @ slice line a b @ drop b line = line" by simp
  show ?thesis by (simp only: 1 2 3)
qed

subsection \<open>C8: the remainder is the line without the matched substring\<close>

text \<open>
  Claim C8 says that whenever classification succeeds with a match spanning
  \<open>[loc0, loc1)\<close>, the returned remainder is the text before the match followed by the
  text after it, and that putting the matched substring back at offset \<open>loc0\<close> gives the
  line again. After a full scan \<^verbatim>\<open>parseLogLine\<close> returns a \<^verbatim>\<open>nil\<close> error also when
  the selected match does not parse (line 102), and the remainder it returns then is the
  one \<^verbatim>\<open>extractTimestamp\<close> gives on failure, the whole line (line 68). On an strace
  line the selected match spans \<open>[0, 20)\<close>: the remainder would have to be
  \<^verbatim>\<open> read(3)\<close>, the code returns the whole line with a \<^verbatim>\<open>nil\<close> error, and putting
  the matched substring back at offset 0 doubles it. With a hint for pattern 11 the same
  line is returned with \<^verbatim>\<open>NoTimestampError\<close>, so there no success is reported. A line
  whose date does not exist behaves like the strace line. The last section shows that
  these are the only lines reported as a success whose remainder is not the line without
  the match.
\<close>

theorem success_with_unparsed_match_keeps_whole_line:
  "findBestMatch ''1234 10:00:00.123456 read(3)'' = (11, Some (0, 20), None)
   \<and> fst (parseLogLine ''1234 10:00:00.123456 read(3)'' 0 ex_g)
       = (zeroTime, ''1234 10:00:00.123456 read(3)'', None)
   \<and> take 0 ''1234 10:00:00.123456 read(3)'' @ drop 20 ''1234 10:00:00.123456 read(3)''
       = '' read(3)''
   \<and> slice ''1234 10:00:00.123456 read(3)'' 0 20 = ''1234 10:00:00.123456''
   \<and> take 0 ''1234 10:00:00.123456 read(3)'' @ slice ''1234 10:00:00.123456 read(3)'' 0 20
        @ drop 0 ''1234 10:00:00.123456 read(3)''
       = ''1234 10:00:00.1234561234 10:00:00.123456 read(3)''
   \<and> fst (parseLogLine ''1234 10:00:00.123456 read(3)'' 0
            (ex_g\<lparr>logFormatIndexes := [0 \<mapsto> 11]\<rparr>))
       = (zeroTime, ''1234 10:00:00.123456 read(3)'', Some NoTimestampError)
   \<and> findBestMatch ''2024-02-30 10:00:00 backup done'' = (4, Some (0, 19), None)
   \<and> fst (parseLogLine ''2024-02-30 10:00:00 backup done'' 0 ex_g)
       = (zeroTime, ''2024-02-30 10:00:00 backup done'', None)
   \<and> take 0 ''2024-02-30 10:00:00 backup done'' @ drop 19 ''2024-02-30 10:00:00 backup done''
       = '' backup done''"
  by code_simp

subsection \<open>C3: which match \<^verbatim>\<open>findBestMatch\<close> selects\<close>

text \<open>
  Claim C3 says that, of two matches that start at different offsets, the one that starts
  earlier is selected whatever the two lengths are. The loop replaces the candidate when
  the new match starts earlier \<^emph>\<open>or\<close> is longer; the test for the longer span is not
  restricted to matches that start at the same offset. On the syslog line below pattern 0
  matches at offset 0 (15 bytes) and pattern 1 matches at offset 37 (25 bytes):
  \<^verbatim>\<open>findBestMatch\<close> returns pattern 1, and \<^verbatim>\<open>parseLogLine\<close> takes the instant from
  the message text and leaves the line's own timestamp in the remainder.
\<close>

theorem findBestMatch_later_longer_wins:
  "FindStringIndex (regex (timestampPatterns ! 0))
      ''Jul 16 10:23:43 host app: started at 2024-07-16 10:23:40 +0200'' = Some (0, 15)
   \<and> FindStringIndex (regex (timestampPatterns ! 1))
      ''Jul 16 10:23:43 host app: started at 2024-07-16 10:23:40 +0200'' = Some (37, 62)
   \<and> findBestMatch ''Jul 16 10:23:43 host app: started at 2024-07-16 10:23:40 +0200''
       = (1, Some (37, 62), None)
   \<and> fst (parseLogLine ''Jul 16 10:23:43 host app: started at 2024-07-16 10:23:40 +0200'' 0
            \<lparr>logFormatIndexes = Map.empty, currentYear = 2024, processedLines = 0,
               cacheHits = 0\<rparr>)
       = (\<lparr>Year = 2024, Month = 7, Day = 16, Hour = 10, Minute = 23, Second = 40,
            Nanosecond = 0, Offset = 7200\<rparr>,
          ''Jul 16 10:23:43 host app: started at '', None)"
  by code_simp

subsection \<open>C4: a match that does not parse\<close>

text \<open>
  Claim C4 says that a line on which a detector matches but whose matched substring does
  not parse is classified as having no timestamp. After a full scan
  \<^verbatim>\<open>parseLogLine\<close> returns \<^verbatim>\<open>timestamp, remaining, nil\<close>: the error of
  \<^verbatim>\<open>extractTimestamp\<close> is held by an inner variable and dropped. On an strace line
  pattern 11 wins (its match starts at the process id), the match with the process id
  does not parse under \<^verbatim>\<open>15:04:05.000000\<close>, and the line is returned as timestamped
  with the zero time. With a hint for pattern 11 the same line is returned with
  \<^verbatim>\<open>NoTimestampError\<close>. Merged from a file of its own, the line is sent as a record
  of January 1, year 1.
\<close>

theorem fullScan_reports_unparsable_match_as_success:
  "findBestMatch ''1234 10:00:00.123456 read(3)'' = (11, Some (0, 20), None)
   \<and> time_Parse (layout (timestampPatterns ! 11)) (slice ''1234 10:00:00.123456 read(3)'' 0 20)
       = None
   \<and> fst (parseLogLine ''1234 10:00:00.123456 read(3)'' 0
            \<lparr>logFormatIndexes = Map.empty, currentYear = 2024, processedLines = 0,
               cacheHits = 0\<rparr>)
       = (zeroTime, ''1234 10:00:00.123456 read(3)'', None)
   \<and> fst (parseLogLine ''1234 10:00:00.123456 read(3)'' 0
            \<lparr>logFormatIndexes = [0 \<mapsto> 11], currentYear = 2024, processedLines = 0,
               cacheHits = 0\<rparr>)
       = (zeroTime, ''1234 10:00:00.123456 read(3)'', Some NoTimestampError)
   \<and> mergeLogs [''trace.log'' \<mapsto> [''1234 10:00:00.123456 read(3)'']]
         \<lparr>logFormatIndexes = Map.empty, currentYear = 2024, processedLines = 0,
            cacheHits = 0\<rparr> [''trace.log''] zeroTime zeroTime
       = [\<lparr>timestamp = zeroTime, filename = ''trace.log'',
            restOfLine = ''1234 10:00:00.123456 read(3)''\<rparr>]"
  by code_simp

subsection \<open>C6: the format hint\<close>

text \<open>
  Claim C6, as amended. (1) A full scan whose winning match parses stores the winner's
  index as the hint of the source. (2) When the source has hint \<open>k\<close> and detector \<open>k\<close>
  matches the line, the result is the result of \<^verbatim>\<open>extractTimestamp\<close> on that match and
  nothing else is scanned: it is counted as a cache hit if it parses, it is returned with
  \<^verbatim>\<open>NoTimestampError\<close> if it does not, and the hints stay as they are. (3) When the
  source has no hint, or detector \<open>k\<close> does not match the line, the result is that of the
  full scan.
\<close>

theorem hint_caching:
  "(findBestMatch line1 = (k1, Some (a1, b1), None)
      \<and> time_Parse (layout (timestampPatterns ! k1)) (slice line1 a1 b1) \<noteq> None
    \<longrightarrow> logFormatIndexes (snd (fullScan line1 i1 g1)) = (logFormatIndexes g1)(i1 \<mapsto> k1)
        \<and> snd (snd (fst (fullScan line1 i1 g1))) = None)
   \<and> (logFormatIndexes g2 i2 = Some k2
      \<and> FindStringIndex (regex (timestampPatterns ! k2)) line2 = Some loc2
    \<longrightarrow> fst (parseLogLine line2 i2 g2)
          = extractTimestamp (currentYear g2) line2 loc2 (layout (timestampPatterns ! k2))
        \<and> logFormatIndexes (snd (parseLogLine line2 i2 g2)) = logFormatIndexes g2
        \<and> cacheHits (snd (parseLogLine line2 i2 g2))
          = (if snd (snd (fst (parseLogLine line2 i2 g2))) = None then cacheHits g2 + 1
             else cacheHits g2))
   \<and> (logFormatIndexes g3 i3 = None
        \<or> (\<exists>k3. logFormatIndexes g3 i3 = Some k3
                 \<and> FindStringIndex (regex (timestampPatterns ! k3)) line3 = None)
    \<longrightarrow> parseLogLine line3 i3 g3
          = fullScan line3 i3 (g3\<lparr>processedLines := processedLines g3 + 1\<rparr>))"
proof (intro conjI impI)
  assume "findBestMatch line1 = (k1, Some (a1, b1), None)
      \<and> time_Parse (layout (timestampPatterns ! k1)) (slice line1 a1 b1) \<noteq> None"
  then show "logFormatIndexes (snd (fullScan line1 i1 g1)) = (logFormatIndexes g1)(i1 \<mapsto> k1)"
    and "snd (snd (fst (fullScan line1 i1 g1))) = None"
    by (auto simp: fullScan_def extractTimestamp_def split: prod.splits option.splits)
next
  assume a: "logFormatIndexes g2 i2 = Some k2
      \<and> FindStringIndex (regex (timestampPatterns ! k2)) line2 = Some loc2"
  then show "fst (parseLogLine line2 i2 g2)
          = extractTimestamp (currentYear g2) line2 loc2 (layout (timestampPatterns ! k2))"
    by (simp add: parseLogLine_def Let_def split: prod.splits)
  from a show "logFormatIndexes (snd (parseLogLine line2 i2 g2)) = logFormatIndexes g2"
    by (simp add: parseLogLine_def Let_def split: prod.splits)
  from a show "cacheHits (snd (parseLogLine line2 i2 g2))
          = (if snd (snd (fst (parseLogLine line2 i2 g2))) = None then cacheHits g2 + 1
             else cacheHits g2)"
    by (simp add: parseLogLine_def Let_def split: prod.splits)
next
  assume "logFormatIndexes g3 i3 = None
        \<or> (\<exists>k3. logFormatIndexes g3 i3 = Some k3
                 \<and> FindStringIndex (regex (timestampPatterns ! k3)) line3 = None)"
  then show "parseLogLine line3 i3 g3
          = fullScan line3 i3 (g3\<lparr>processedLines := processedLines g3 + 1\<rparr>)"
    by (auto simp: parseLogLine_def Let_def)
qed

theorem hint_caching_witness:
  "findBestMatch ''2024-01-01 10:00:00 hello'' = (4, Some (0, 19), None)
   \<and> time_Parse (layout (timestampPatterns ! 4)) (slice ''2024-01-01 10:00:00 hello'' 0 19) \<noteq> None
   \<and> logFormatIndexes (snd (fullScan ''2024-01-01 10:00:00 hello'' 0
         \<lparr>logFormatIndexes = Map.empty, currentYear = 2024, processedLines = 1, cacheHits = 0\<rparr>))
       = (logFormatIndexes
           \<lparr>logFormatIndexes = Map.empty, currentYear = 2024, processedLines = 1,
              cacheHits = 0\<rparr>)(0 \<mapsto> 4)
   \<and> logFormatIndexes
         \<lparr>logFormatIndexes = [0 \<mapsto> 4], currentYear = 2024, processedLines = 1, cacheHits = 0\<rparr> 0
       = Some 4
   \<and> FindStringIndex (regex (timestampPatterns ! 4)) ''2024-01-01 10:00:05 world'' = Some (0, 19)
   \<and> fst (parseLogLine ''2024-01-01 10:00:05 world'' 0
         \<lparr>logFormatIndexes = [0 \<mapsto> 4], currentYear = 2024, processedLines = 1, cacheHits = 0\<rparr>)
       = extractTimestamp
           (currentYear \<lparr>logFormatIndexes = [0 \<mapsto> 4], currentYear = 2024, processedLines = 1,
                          cacheHits = 0\<rparr>)
           ''2024-01-01 10:00:05 world'' (0, 19) (layout (timestampPatterns ! 4))
   \<and> FindStringIndex (regex (timestampPatterns ! 4)) ''Jan  1 10:00:07 syslog'' = None
   \<and> parseLogLine ''Jan  1 10:00:07 syslog'' 0
         \<lparr>logFormatIndexes = [0 \<mapsto> 4], currentYear = 2024, processedLines = 1, cacheHits = 0\<rparr>
       = fullScan ''Jan  1 10:00:07 syslog'' 0
          (\<lparr>logFormatIndexes = [0 \<mapsto> 4], currentYear = 2024, processedLines = 1, cacheHits = 0\<rparr>
           \<lparr>processedLines :=
               processedLines \<lparr>logFormatIndexes = [0 \<mapsto> 4], currentYear = 2024,
                                 processedLines = 1, cacheHits = 0\<rparr> + 1\<rparr>)"
proof -
  have a: "findBestMatch ''2024-01-01 10:00:00 hello'' = (4, Some (0, 19), None)"
    by code_simp
  have b: "time_Parse (layout (timestampPatterns ! 4)) (slice ''2024-01-01 10:00:00 hello'' 0 19)
           \<noteq> None"
    by code_simp
  have c: "logFormatIndexes
         \<lparr>logFormatIndexes = [0 \<mapsto> 4], currentYear = 2024, processedLines = 1, cacheHits = 0\<rparr> 0
       = Some 4"
    by simp
  have d: "FindStringIndex (regex (timestampPatterns ! 4)) ''2024-01-01 10:00:05 world''
           = Some (0, 19)"
    by code_simp
  have e: "FindStringIndex (regex (timestampPatterns ! 4)) ''Jan  1 10:00:07 syslog'' = None"
    by code_simp
  from a b c d e
    hint_caching[where ?line1.0 = "''2024-01-01 10:00:00 hello''" and ?k1.0 = 4 and ?a1.0 = 0
        and ?b1.0 = 19 and ?i1.0 = 0
        and ?g1.0 = "\<lparr>logFormatIndexes = Map.empty, currentYear = 2024, processedLines = 1,
                      cacheHits = 0\<rparr>"
        and ?g2.0 = "\<lparr>logFormatIndexes = [0 \<mapsto> 4], currentYear = 2024, processedLines = 1,
                      cacheHits = 0\<rparr>"
        and ?i2.0 = 0 and ?k2.0 = 4 and ?line2.0 = "''2024-01-01 10:00:05 world''"
        and ?loc2.0 = "(0, 19)"
        and ?g3.0 = "\<lparr>logFormatIndexes = [0 \<mapsto> 4], currentYear = 2024, processedLines = 1,
                      cacheHits = 0\<rparr>"
        and ?i3.0 = 0 and ?line3.0 = "''Jan  1 10:00:07 syslog''"]
  show ?thesis by blast
qed

text \<open>
  The claim as it is written also promises a full scan whenever the hinted attempt "does
  not succeed". When the hinted detector matches and the match does not parse, no scan
  is made. Below the source has hint 0 (syslog); detector 0 matches \<^verbatim>\<open>job 7 00:00:01\<close>
  inside the message, which is not a date; \<^verbatim>\<open>parseLogLine\<close> returns
  \<^verbatim>\<open>NoTimestampError\<close>, although the full scan classifies the line by the timestamp it
  starts with.
\<close>

theorem hint_not_rescanned_counterexample:
  "logFormatIndexes \<lparr>logFormatIndexes = [0 \<mapsto> 0], currentYear = 2024, processedLines = 0,
                     cacheHits = 0\<rparr> 0 = Some 0
   \<and> snd (snd (extractTimestamp 2024 ''2024-07-16 10:23:43 rotated: job 7 00:00:01'' (29, 43)
                 (layout (timestampPatterns ! 0)))) = Some NoTimestampError
   \<and> fst (parseLogLine ''2024-07-16 10:23:43 rotated: job 7 00:00:01'' 0
            \<lparr>logFormatIndexes = [0 \<mapsto> 0], currentYear = 2024, processedLines = 0,
               cacheHits = 0\<rparr>)
       = (zeroTime, ''2024-07-16 10:23:43 rotated: job 7 00:00:01'', Some NoTimestampError)
   \<and> fst (fullScan ''2024-07-16 10:23:43 rotated: job 7 00:00:01'' 0
            \<lparr>logFormatIndexes = [0 \<mapsto> 0], currentYear = 2024, processedLines = 1,
               cacheHits = 0\<rparr>)
       = (\<lparr>Year = 2024, Month = 7, Day = 16, Hour = 10, Minute = 23, Second = 43,
            Nanosecond = 0, Offset = 0\<rparr>, '' rotated: job 7 00:00:01'', None)"
  by code_simp

subsection \<open>C9: formats without a year\<close>


lemma daysIn_other_month: "m \<noteq> 2 \<Longrightarrow> daysIn m y = daysIn m y'"
  by (simp add: daysIn_def)

lemma daysIn_february: "daysIn 2 y = (if isLeap y then 29 else 28)"
  by (simp add: daysIn_def daysBefore_def)

lemma AddDate_overflow:
  assumes "Day t \<le> daysIn (Month t) (Year t)" and "\<not> Day t \<le> daysIn (Month t) y"
  shows "Month t = 2 \<and> Day t = 29 \<and> \<not> isLeap y \<and> isLeap (Year t)"
proof -
  from assms have m: "Month t = 2" using daysIn_other_month[of "Month t" "Year t" y] by auto
  with assms show ?thesis by (auto simp: daysIn_february split: if_splits)
qed

lemma AddDate_instant:
  assumes "Day t \<le> daysIn (Month t) (Year t)"
  shows "instant (AddDate t n) = instant (t\<lparr>Year := Year t + n\<rparr>)"
proof (cases "Day t \<le> daysIn (Month t) (Year t + n)")
  case True
  then show ?thesis by (simp add: AddDate_def)
next
  case False
  from AddDate_overflow[OF assms False] False show ?thesis
    by (simp add: AddDate_def instant_def daysIn_february daysBefore_def)
qed




subsection \<open>Sources do not disturb one another\<close>

declare readNextTimestamp.simps(2) [simp del]
declare readNextTimestamp_Cons [simp]

lemma agree_refl [simp]: "agree i g g"
  by (simp add: agree_def)

lemma agree_trans: "agree i g h \<Longrightarrow> agree i h k \<Longrightarrow> agree i g k"
  by (simp add: agree_def)

lemma agree_sym: "agree i g h \<Longrightarrow> agree i h g"
  by (simp add: agree_def)

lemma fullScan_frame:
  "fullScan l i g = (res, g') \<Longrightarrow> j \<noteq> i \<Longrightarrow> agree j g g'"
  by (auto simp: fullScan_def agree_def split: prod.splits option.splits if_splits)

lemma parseLogLine_frame:
  "parseLogLine l i g = (res, g') \<Longrightarrow> j \<noteq> i \<Longrightarrow> agree j g g'"
  by (auto simp: parseLogLine_def Let_def agree_def split: prod.splits option.splits if_splits
           dest!: fullScan_frame[where j = j])

lemma fullScan_cong:
  "agree i g h \<Longrightarrow> fst (fullScan l i g) = fst (fullScan l i h)
     \<and> agree i (snd (fullScan l i g)) (snd (fullScan l i h))"
  by (auto simp: fullScan_def agree_def split: prod.splits option.splits if_splits)

lemma agree_processedLines [simp]:
  "agree i (g\<lparr>processedLines := n\<rparr>) h = agree i g h"
  "agree i g (h\<lparr>processedLines := n\<rparr>) = agree i g h"
  by (simp_all add: agree_def)

lemma agree_cacheHits [simp]:
  "agree i (g\<lparr>cacheHits := n\<rparr>) h = agree i g h"
  "agree i g (h\<lparr>cacheHits := n\<rparr>) = agree i g h"
  by (simp_all add: agree_def)

lemma parseLogLine_cong:
  assumes "agree i g h"
  shows "fst (parseLogLine l i g) = fst (parseLogLine l i h)
     \<and> agree i (snd (parseLogLine l i g)) (snd (parseLogLine l i h))"
proof -
  let ?g = "g\<lparr>processedLines := processedLines g + 1\<rparr>"
  let ?h = "h\<lparr>processedLines := processedLines h + 1\<rparr>"
  from assms have a: "agree i ?g ?h" by simp
  from assms have eq: "logFormatIndexes g i = logFormatIndexes h i" "currentYear g = currentYear h"
    by (simp_all add: agree_def)
  show ?thesis
  proof (cases "logFormatIndexes g i")
    case None
    with eq fullScan_cong[OF a, of l] show ?thesis by (simp add: parseLogLine_def Let_def)
  next
    case (Some idx)
    show ?thesis
    proof (cases "FindStringIndex (regex (timestampPatterns ! idx)) l")
      case None
      with Some eq fullScan_cong[OF a, of l] show ?thesis by (simp add: parseLogLine_def Let_def)
    next
      case (Some loc)
      with \<open>logFormatIndexes g i = Some idx\<close> eq assms show ?thesis
        by (auto simp: parseLogLine_def Let_def split: prod.splits)
    qed
  qed
qed

lemma carry_cong: "agree i g h \<Longrightarrow> carry i g t ls = carry i h t ls"
proof (induction ls arbitrary: g h t)
  case Nil
  then show ?case by simp
next
  case (Cons l ls)
  obtain ts rest err g' where pg: "parseLogLine l i g = ((ts, rest, err), g')"
    by (metis surj_pair)
  obtain ts2 rest2 err2 h' where ph: "parseLogLine l i h = ((ts2, rest2, err2), h')"
    by (metis surj_pair)
  from parseLogLine_cong[OF Cons.prems, of l] pg ph
  have eq: "ts2 = ts" "rest2 = rest" "err2 = err" and a: "agree i g' h'" by simp_all
  from Cons.IH[OF a] pg ph eq show ?case by simp
qed

lemma sourceInstants_cong: "agree i g h \<Longrightarrow> sourceInstants i g ls = sourceInstants i h ls"
proof (induction ls arbitrary: g h)
  case Nil
  then show ?case by simp
next
  case (Cons l ls)
  obtain ts rest err g' where pg: "parseLogLine l i g = ((ts, rest, err), g')"
    by (metis surj_pair)
  obtain ts2 rest2 err2 h' where ph: "parseLogLine l i h = ((ts2, rest2, err2), h')"
    by (metis surj_pair)
  from parseLogLine_cong[OF Cons.prems, of l] pg ph
  have eq: "ts2 = ts" "rest2 = rest" "err2 = err" and a: "agree i g' h'" by simp_all
  from Cons.IH[OF a] pg ph eq show ?case by simp
qed

lemma readNextTimestamp_frame:
  "readNextTimestamp sc i g = (res, sc', g') \<Longrightarrow> j \<noteq> i \<Longrightarrow> agree j g g'"
  by (cases sc) (auto split: prod.splits dest: parseLogLine_frame)

subsection \<open>One pass of the loop\<close>

lemma wf_nth: "wf s \<Longrightarrow> i < length (rows s) \<Longrightarrow> fileErrors (rows s ! i) = None \<Longrightarrow>
  \<exists>sc. scanners (rows s ! i) = Some sc"
  by (auto simp: wf_def list_all_length)

lemma mono_nth: "mono s \<Longrightarrow> i < length (rows s) \<Longrightarrow> rowSorted i (vars s) (rows s ! i)"
  by (auto simp: mono_def list_all_iff)

lemma monoI: "(\<And>i. i < length (rows s) \<Longrightarrow> rowSorted i (vars s) (rows s ! i)) \<Longrightarrow> mono s"
  by (auto simp: mono_def list_all_iff)

lemma rowSorted_cong: "agree i g h \<Longrightarrow> rowSorted i g r = rowSorted i h r"
  by (auto simp: rowSorted_def sourceInstants_cong[of i g h] split: option.splits)

text \<open>One pass of the loop that does not leave it, seen from every source.\<close>

lemma step_facts:
  assumes it: "iteration st en s = Next sent s'"
  obtains e where
    "findEarliest (rows s) = Some (e, timestamps (rows s ! e))"
    "e < length (rows s)"
    "fileErrors (rows s ! e) = None"
    "IsZero en \<or> \<not> After (timestamps (rows s ! e)) en"
    "sent = (if IsZero st \<or> \<not> Before (timestamps (rows s ! e)) st
             then [mkLine (filenames (rows s ! e))
                     (timestamps (rows s ! e), restOfLines (rows s ! e))]
             else [])"
    "length (rows s') = length (rows s)"
    "\<And>j. j \<noteq> e \<Longrightarrow> rows s' ! j = rows s ! j"
    "\<And>j. j \<noteq> e \<Longrightarrow> agree j (vars s) (vars s')"
    "filenames (rows s' ! e) = filenames (rows s ! e)"
    "pending s e = (timestamps (rows s ! e), restOfLines (rows s ! e)) # pending s' e"
    "fileErrors (rows s' ! e) \<noteq> None \<or> scanners (rows s' ! e) \<noteq> None"
    "rowSorted e (vars s) (rows s ! e) \<Longrightarrow>
       rowSorted e (vars s') (rows s' ! e) \<and>
       (fileErrors (rows s' ! e) = None \<longrightarrow>
          instant (timestamps (rows s ! e)) \<le> instant (timestamps (rows s' ! e)))"
proof -
  from it obtain e t sc ts rest err sc' g' where
    fe: "findEarliest (rows s) = Some (e, t)" and
    en: "IsZero en \<or> \<not> After t en" and
    sc: "scanners (rows s ! e) = Some sc" and
    rd: "readNextTimestamp sc e (vars s) = ((ts, rest, err), sc', g')" and
    sent: "sent = (if IsZero st \<or> \<not> Before t st
             then [\<lparr>timestamp = t, filename = filenames (rows s ! e),
                     restOfLine = restOfLines (rows s ! e)\<rparr>]
             else [])" and
    s': "s' = \<lparr>rows = (rows s)[e :=
             (if err = None
                then (rows s ! e)\<lparr>scanners := Some sc', restOfLines := rest, timestamps := ts\<rparr>
              else if err \<noteq> Some NoTimestampError
                then (rows s ! e)\<lparr>scanners := Some sc', restOfLines := rest, fileErrors := err\<rparr>
              else (rows s ! e)\<lparr>scanners := Some sc', restOfLines := rest\<rparr>)],
           vars = g'\<rparr>"
    by (rule iteration_Next)
  note f = findEarliest_Some[OF fe]
  have t: "t = timestamps (rows s ! e)" by (rule f(3))
  have e: "e < length (rows s)" by (rule f(1))
  have al: "fileErrors (rows s ! e) = None" by (rule f(2))
  have 1: "findEarliest (rows s) = Some (e, timestamps (rows s ! e))" using fe t by simp
  have 5: "sent = (if IsZero st \<or> \<not> Before (timestamps (rows s ! e)) st
             then [mkLine (filenames (rows s ! e))
                     (timestamps (rows s ! e), restOfLines (rows s ! e))]
             else [])"
    using sent t by (simp add: mkLine_def)
  have 6: "length (rows s') = length (rows s)" by (simp add: s')
  have 7: "\<And>j. j \<noteq> e \<Longrightarrow> rows s' ! j = rows s ! j" by (simp add: s')
  have 8: "\<And>j. j \<noteq> e \<Longrightarrow> agree j (vars s) (vars s')"
    using readNextTimestamp_frame[OF rd] by (simp add: s')
  have 9: "filenames (rows s' ! e) = filenames (rows s ! e)" using e by (simp add: s')
  have 11: "fileErrors (rows s' ! e) \<noteq> None \<or> scanners (rows s' ! e) \<noteq> None"
    using e by (simp add: s')
  have 10: "pending s e = (timestamps (rows s ! e), restOfLines (rows s ! e)) # pending s' e"
  proof (cases sc)
    case Nil
    with rd have "err = Some EndOfFileError" by simp
    with Nil e al sc show ?thesis by (simp add: pending_def Let_def s')
  next
    case (Cons l ls)
    with rd obtain ts0 where p: "parseLogLine l e (vars s) = ((ts0, rest, err), g')"
      and ts: "ts = (if err = None then ts0 else zeroTime)" and sc': "sc' = ls"
      by (auto split: prod.splits)
    from parseLogLine_err[OF p] show ?thesis
    proof
      assume "err = None"
      with Cons e al sc p ts sc' show ?thesis by (simp add: pending_def Let_def s')
    next
      assume "err = Some NoTimestampError"
      with Cons e al sc p ts sc' show ?thesis by (simp add: pending_def Let_def s')
    qed
  qed
  have 12: "rowSorted e (vars s) (rows s ! e) \<Longrightarrow>
       rowSorted e (vars s') (rows s' ! e) \<and>
       (fileErrors (rows s' ! e) = None \<longrightarrow>
          instant (timestamps (rows s ! e)) \<le> instant (timestamps (rows s' ! e)))"
  proof -
    assume rs: "rowSorted e (vars s) (rows s ! e)"
    show ?thesis
    proof (cases sc)
      case Nil
      with rd have "err = Some EndOfFileError" by simp
      with e show ?thesis by (simp add: rowSorted_def s')
    next
      case (Cons l ls)
      with rd obtain ts0 where p: "parseLogLine l e (vars s) = ((ts0, rest, err), g')"
        and ts: "ts = (if err = None then ts0 else zeroTime)" and sc': "sc' = ls"
        by (auto split: prod.splits)
      from parseLogLine_err[OF p] show ?thesis
      proof
        assume "err = None"
        with Cons e al sc p ts sc' rs show ?thesis by (simp add: rowSorted_def s')
      next
        assume "err = Some NoTimestampError"
        with Cons e al sc p ts sc' rs show ?thesis by (simp add: rowSorted_def s')
      qed
    qed
  qed
  from 1 e al en[unfolded t] 5 6 7 8 9 10 11 12 show thesis by (rule that)
qed

subsection \<open>The whole loop\<close>

declare mergeLoop.simps [simp del]

lemma mergeLoop_Break: "iteration st en s = Break \<Longrightarrow> mergeLoop st en s = []"
  by (simp add: mergeLoop.simps)

lemma mergeLoop_Next:
  "iteration st en s = Next sent s' \<Longrightarrow> mergeLoop st en s = sent @ mergeLoop st en s'"
  by (simp add: mergeLoop.simps)

lemma iteration_Break:
  assumes "iteration st en s = Break"
  shows "findEarliest (rows s) = None \<or>
         (\<exists>e. findEarliest (rows s) = Some (e, timestamps (rows s ! e)) \<and> e < length (rows s)
               \<and> \<not> IsZero en \<and> After (timestamps (rows s ! e)) en)"
proof (cases "findEarliest (rows s)")
  case None
  then show ?thesis by simp
next
  case (Some p)
  obtain e t where p: "p = (e, t)" by (cases p)
  from findEarliest_Some[OF Some[unfolded p]] have "t = timestamps (rows s ! e)" "e < length (rows s)"
    by simp_all
  with assms Some p show ?thesis
    by (auto simp: iteration_def Let_def split: if_splits option.splits prod.splits)
qed

lemma iteration_Panic:
  assumes a: "iteration st en s = Panic sent"
  shows "\<not> wf s"
    and "\<exists>e t. (IsZero en \<or> \<not> After t en)
             \<and> sent = (if IsZero st \<or> \<not> Before t st
                        then [\<lparr>timestamp = t, filename = filenames (rows s ! e),
                                restOfLine = restOfLines (rows s ! e)\<rparr>]
                        else [])"
proof -
  from a obtain e t where fe: "findEarliest (rows s) = Some (e, t)"
    by (cases "findEarliest (rows s)") (auto simp: iteration_def)
  note f = findEarliest_Some(1,2)[OF fe]
  from a fe have en: "IsZero en \<or> \<not> After t en"
    by (auto simp: iteration_def split: if_splits)
  have sc: "scanners (rows s ! e) = None"
  proof (cases "scanners (rows s ! e)")
    case None
    then show ?thesis .
  next
    case (Some sc)
    obtain res sc' g' where "readNextTimestamp sc e (vars s) = (res, sc', g')"
      by (metis surj_pair)
    moreover obtain ts rest err where "res = (ts, rest, err)" by (metis surj_pair)
    ultimately show ?thesis using a fe en f Some
      by (auto simp: iteration_def Let_def split: if_splits)
  qed
  with f show "\<not> wf s" by (auto simp: wf_def list_all_length)
  from a fe en f sc
  have "sent = (if IsZero st \<or> \<not> Before t st
                        then [\<lparr>timestamp = t, filename = filenames (rows s ! e),
                                restOfLine = restOfLines (rows s ! e)\<rparr>]
                        else [])"
    by (auto simp: iteration_def Let_def split: if_splits)
  with en show "\<exists>e t. (IsZero en \<or> \<not> After t en)
             \<and> sent = (if IsZero st \<or> \<not> Before t st
                        then [\<lparr>timestamp = t, filename = filenames (rows s ! e),
                                restOfLine = restOfLines (rows s ! e)\<rparr>]
                        else [])" by blast
qed

lemma pending_other:
  "rows s' ! j = rows s ! j \<Longrightarrow> agree j (vars s) (vars s') \<Longrightarrow> pending s' j = pending s j"
  by (auto simp: pending_def Let_def carry_cong[of j "vars s" "vars s'"] split: option.splits)

lemma wf_step:
  assumes "wf s" and it: "iteration st en s = Next sent s'"
  shows "wf s'"
proof -
  from it obtain e where
    len: "length (rows s') = length (rows s)" and
    oth: "\<And>j. j \<noteq> e \<Longrightarrow> rows s' ! j = rows s ! j" and
    e: "fileErrors (rows s' ! e) \<noteq> None \<or> scanners (rows s' ! e) \<noteq> None"
    by (rule step_facts) (rule that; assumption)
  show ?thesis
    unfolding wf_def list_all_length
  proof (intro allI impI)
    fix j assume j: "j < length (rows s')"
    show "fileErrors (rows s' ! j) \<noteq> None \<or> scanners (rows s' ! j) \<noteq> None"
    proof (cases "j = e")
      case True
      with e show ?thesis by simp
    next
      case False
      with oth[OF False] j len assms(1) show ?thesis by (auto simp: wf_def list_all_length)
    qed
  qed
qed

lemma mono_step:
  assumes m: "mono s" and it: "iteration st en s = Next sent s'"
  shows "mono s'"
proof -
  from it obtain e where
    e: "e < length (rows s)" and
    len: "length (rows s') = length (rows s)" and
    oth: "\<And>j. j \<noteq> e \<Longrightarrow> rows s' ! j = rows s ! j" and
    ag: "\<And>j. j \<noteq> e \<Longrightarrow> agree j (vars s) (vars s')" and
    rs: "rowSorted e (vars s) (rows s ! e) \<Longrightarrow>
       rowSorted e (vars s') (rows s' ! e) \<and>
       (fileErrors (rows s' ! e) = None \<longrightarrow>
          instant (timestamps (rows s ! e)) \<le> instant (timestamps (rows s' ! e)))"
    by (rule step_facts) (rule that; assumption)
  show ?thesis
  proof (rule monoI)
    fix j assume j: "j < length (rows s')"
    show "rowSorted j (vars s') (rows s' ! j)"
    proof (cases "j = e")
      case True
      with rs[OF mono_nth[OF m e]] show ?thesis by simp
    next
      case False
      from j len have "rowSorted j (vars s) (rows s ! j)" using mono_nth[OF m] by simp
      with oth[OF False] rowSorted_cong[OF ag[OF False]] show ?thesis by simp
    qed
  qed
qed

lemma mset_concat_split:
  assumes "e < n" and "\<And>j. j < n \<Longrightarrow> j \<noteq> e \<Longrightarrow> f' j = f j" and "mset (f e) = A + mset (f' e)"
  shows "mset (concat (map f [0..<n])) = A + mset (concat (map f' [0..<n]))"
  using assms
proof (induction n)
  case 0
  then show ?case by simp
next
  case (Suc n)
  show ?case
  proof (cases "e = n")
    case True
    have eq: "concat (map f [0..<n]) = concat (map f' [0..<n])"
      using Suc.prems(2) True by (intro arg_cong[where f = concat] map_cong) auto
    have "mset (concat (map f [0..<Suc n])) = mset (concat (map f [0..<n])) + mset (f n)"
      by simp
    also have "\<dots> = mset (concat (map f' [0..<n])) + (A + mset (f' n))"
      using True Suc.prems(3) by (simp only: eq)
    also have "\<dots> = A + mset (concat (map f' [0..<Suc n]))"
      by simp
    finally show ?thesis .
  next
    case False
    with Suc.prems have "e < n" by simp
    from Suc.IH[OF this] Suc.prems have
      "mset (concat (map f [0..<n])) = A + mset (concat (map f' [0..<n]))" by simp
    moreover from Suc.prems(2)[of n] False have "f' n = f n" by simp
    ultimately show ?thesis by simp
  qed
qed

lemma inWindow_sent:
  "(IsZero en \<or> \<not> After t en) \<Longrightarrow>
   inWindow st en t = (IsZero st \<or> \<not> Before t st)"
  by (auto simp: inWindow_def Before_def After_def)

text \<open>Whatever is sent lies inside the window.\<close>

lemma mergeLoop_inWindow:
  "r \<in> set (mergeLoop st en s) \<Longrightarrow> inWindow st en (timestamp r)"
proof (induction st en s rule: mergeLoop.induct)
  case (1 st en s)
  show ?case
  proof (cases "iteration st en s")
    case Break
    with "1.prems" show ?thesis by (simp add: mergeLoop_Break)
  next
    case (Panic sent)
    with "1.prems" have r: "r \<in> set sent" by (simp add: mergeLoop.simps)
    from iteration_Panic(2)[OF Panic] obtain e t where
      en: "IsZero en \<or> \<not> After t en" and
      sent: "sent = (if IsZero st \<or> \<not> Before t st
                        then [\<lparr>timestamp = t, filename = filenames (rows s ! e),
                                restOfLine = restOfLines (rows s ! e)\<rparr>]
                        else [])" by blast
    with r inWindow_sent[OF en, of st] show ?thesis
      by (auto split: if_splits)
  next
    case (Next sent s')
    from Next obtain e where
      en: "IsZero en \<or> \<not> After (timestamps (rows s ! e)) en" and
      sent: "sent = (if IsZero st \<or> \<not> Before (timestamps (rows s ! e)) st
             then [mkLine (filenames (rows s ! e))
                     (timestamps (rows s ! e), restOfLines (rows s ! e))]
             else [])"
      by (rule step_facts) (rule that; assumption)
    from "1.prems" Next have "r \<in> set sent \<or> r \<in> set (mergeLoop st en s')"
      by (simp add: mergeLoop_Next)
    then show ?thesis
    proof
      assume "r \<in> set sent"
      with sent inWindow_sent[OF en, of st] show ?thesis
        by (auto simp: mkLine_def split: if_splits)
    next
      assume "r \<in> set (mergeLoop st en s')"
      with "1.IH"[OF Next] show ?thesis by simp
    qed
  qed
qed

text \<open>Whatever is sent is a record some source was expected to contribute.\<close>

lemma all_retired_pending:
  assumes "findEarliest (rows s) = None" and "i < length (rows s)"
  shows "pending s i = []"
proof -
  from assms have "fileErrors (rows s ! i) \<noteq> None"
    by (simp add: findEarliest_None)
  then show ?thesis by (auto simp: pending_def Let_def)
qed

lemma all_retired_expected:
  "findEarliest (rows s) = None \<Longrightarrow> expected st en s = []"
  by (simp add: expected_def all_retired_pending)

lemma expected_step:
  assumes it: "iteration st en s = Next sent s'"
  shows "mset (expected st en s) = mset sent + mset (expected st en s')"
proof -
  from it obtain e where
    e: "e < length (rows s)" and
    en: "IsZero en \<or> \<not> After (timestamps (rows s ! e)) en" and
    sent: "sent = (if IsZero st \<or> \<not> Before (timestamps (rows s ! e)) st
             then [mkLine (filenames (rows s ! e))
                     (timestamps (rows s ! e), restOfLines (rows s ! e))]
             else [])" and
    len: "length (rows s') = length (rows s)" and
    oth: "\<And>j. j \<noteq> e \<Longrightarrow> rows s' ! j = rows s ! j" and
    ag: "\<And>j. j \<noteq> e \<Longrightarrow> agree j (vars s) (vars s')" and
    fn: "filenames (rows s' ! e) = filenames (rows s ! e)" and
    pe: "pending s e = (timestamps (rows s ! e), restOfLines (rows s ! e)) # pending s' e"
    by (rule step_facts) (rule that; assumption)
  let ?f = "\<lambda>s i. filter (\<lambda>r. inWindow st en (timestamp r))
                     (map (mkLine (filenames (rows s ! i))) (pending s i))"
  have 1: "\<And>j. j < length (rows s) \<Longrightarrow> j \<noteq> e \<Longrightarrow> ?f s' j = ?f s j"
  proof -
    fix j assume "j \<noteq> e"
    from pending_other[OF oth[OF this] ag[OF this]] oth[OF this] show "?f s' j = ?f s j"
      by simp
  qed
  have 2: "mset (?f s e) = mset sent + mset (?f s' e)"
    using pe fn sent inWindow_sent[OF en, of st] by (simp add: mkLine_def)
  from mset_concat_split[of e "length (rows s)" "?f s'" "?f s" "mset sent", OF e 1 2]
  show ?thesis by (simp add: expected_def len)
qed

lemma mergeLoop_subset:
  "wf s \<Longrightarrow> set (mergeLoop st en s) \<subseteq> set (expected st en s)"
proof (induction st en s rule: mergeLoop.induct)
  case (1 st en s)
  show ?case
  proof (cases "iteration st en s")
    case Break
    then show ?thesis by (simp add: mergeLoop_Break)
  next
    case (Panic sent)
    with "1.prems" iteration_Panic(1) show ?thesis by blast
  next
    case (Next sent s')
    from "1.IH"[OF Next wf_step[OF "1.prems" Next]]
    have "set (mergeLoop st en s') \<subseteq> set (expected st en s')" .
    moreover from expected_step[OF Next]
    have "set_mset (mset (expected st en s)) = set_mset (mset sent + mset (expected st en s'))"
      by simp
    then have "set (expected st en s) = set sent \<union> set (expected st en s')"
      by simp
    ultimately show ?thesis by (auto simp: mergeLoop_Next[OF Next])
  qed
qed

lemma carry_lower:
  "sorted (map instant (t # sourceInstants i g sc)) \<Longrightarrow> p \<in> set (carry i g t sc) \<Longrightarrow>
   instant t \<le> instant (fst p)"
proof (induction sc arbitrary: g t)
  case Nil
  then show ?case by simp
next
  case (Cons l ls)
  obtain ts rest err g' where pl: "parseLogLine l i g = ((ts, rest, err), g')"
    by (metis surj_pair)
  show ?case
  proof (cases "err = None")
    case True
    with Cons.prems(1) pl have s: "instant t \<le> instant ts"
      and s': "sorted (map instant (ts # sourceInstants i g' ls))" by simp_all
    from Cons.prems(2) pl True have "p = (ts, rest) \<or> p \<in> set (carry i g' ts ls)" by simp
    then show ?thesis
    proof
      assume "p = (ts, rest)"
      with s show ?thesis by simp
    next
      assume "p \<in> set (carry i g' ts ls)"
      from Cons.IH[OF s' this] s show ?thesis by simp
    qed
  next
    case False
    with Cons.prems(1) pl have s': "sorted (map instant (t # sourceInstants i g' ls))" by simp
    from Cons.prems(2) pl False have "p = (t, rest) \<or> p \<in> set (carry i g' t ls)" by simp
    then show ?thesis
    proof
      assume "p = (t, rest)"
      then show ?thesis by simp
    next
      assume "p \<in> set (carry i g' t ls)"
      from Cons.IH[OF s' this] show ?thesis .
    qed
  qed
qed

lemma pending_alive:
  "p \<in> set (pending s i) \<Longrightarrow> fileErrors (rows s ! i) = None"
  by (cases "fileErrors (rows s ! i)") (auto simp: pending_def Let_def)

lemma pending_scanner:
  "p \<in> set (pending s i) \<Longrightarrow> \<exists>sc. scanners (rows s ! i) = Some sc"
  by (cases "fileErrors (rows s ! i)"; cases "scanners (rows s ! i)")
     (auto simp: pending_def Let_def)

lemma pending_lower:
  assumes "rowSorted i (vars s) (rows s ! i)" and "p \<in> set (pending s i)"
  shows "instant (timestamps (rows s ! i)) \<le> instant (fst p)"
proof -
  from pending_alive[OF assms(2)] pending_scanner[OF assms(2)]
  obtain sc where al: "fileErrors (rows s ! i) = None"
    and sc: "scanners (rows s ! i) = Some sc" by blast
  with assms(2) have "p = (timestamps (rows s ! i), restOfLines (rows s ! i))
      \<or> p \<in> set (carry i (vars s) (timestamps (rows s ! i)) sc)"
    by (simp add: pending_def Let_def)
  moreover from assms(1) al sc
  have "sorted (map instant (timestamps (rows s ! i) # sourceInstants i (vars s) sc))"
    by (simp add: rowSorted_def)
  ultimately show ?thesis using carry_lower by fastforce
qed

lemma expected_mem:
  "r \<in> set (expected st en s) \<Longrightarrow>
   \<exists>i p. i < length (rows s) \<and> p \<in> set (pending s i)
        \<and> r = mkLine (filenames (rows s ! i)) p \<and> inWindow st en (fst p)"
  by (auto simp: expected_def mkLine_def)

lemma past_end_expected:
  assumes m: "mono s" and fe: "findEarliest (rows s) = Some (e, t)"
    and en: "\<not> IsZero en" "After t en"
  shows "expected st en s = []"
proof (rule ccontr)
  assume "expected st en s \<noteq> []"
  then obtain r where "r \<in> set (expected st en s)" by (cases "expected st en s") auto
  from expected_mem[OF this] obtain i p where i: "i < length (rows s)"
    and p: "p \<in> set (pending s i)" and w: "inWindow st en (fst p)" by blast
  from pending_lower[OF mono_nth[OF m i] p]
  have "instant (timestamps (rows s ! i)) \<le> instant (fst p)" .
  moreover from findEarliest_Some(4)[OF fe i pending_alive[OF p]]
  have "instant t \<le> instant (timestamps (rows s ! i))" .
  moreover from w en(1) have "instant (fst p) \<le> instant en" by (simp add: inWindow_def)
  ultimately show False using en(2) by (simp add: After_def)
qed

text \<open>Everything a source was expected to contribute inside the window is sent, once.\<close>

lemma mergeLoop_mset:
  "wf s \<Longrightarrow> IsZero en \<or> mono s \<Longrightarrow> mset (mergeLoop st en s) = mset (expected st en s)"
proof (induction st en s rule: mergeLoop.induct)
  case (1 st en s)
  show ?case
  proof (cases "iteration st en s")
    case Break
    from iteration_Break[OF Break] have "expected st en s = []"
    proof
      assume "findEarliest (rows s) = None"
      then show ?thesis by (rule all_retired_expected)
    next
      assume "\<exists>e. findEarliest (rows s) = Some (e, timestamps (rows s ! e)) \<and> e < length (rows s)
               \<and> \<not> IsZero en \<and> After (timestamps (rows s ! e)) en"
      then obtain e where fe: "findEarliest (rows s) = Some (e, timestamps (rows s ! e))"
        and en: "\<not> IsZero en" "After (timestamps (rows s ! e)) en" by blast
      with "1.prems"(2) have "mono s" by simp
      from past_end_expected[OF this fe en] show ?thesis .
    qed
    with Break show ?thesis by (simp add: mergeLoop_Break)
  next
    case (Panic sent)
    with "1.prems" iteration_Panic(1) show ?thesis by blast
  next
    case (Next sent s')
    have "IsZero en \<or> mono s'" using "1.prems"(2) mono_step[OF _ Next] by blast
    from "1.IH"[OF Next wf_step[OF "1.prems"(1) Next] this] expected_step[OF Next]
    show ?thesis by (simp add: mergeLoop_Next[OF Next])
  qed
qed

lemma mergeLoop_lower:
  assumes "wf s" and m: "mono s" and r: "r \<in> set (mergeLoop st en s)"
  shows "\<exists>i<length (rows s). fileErrors (rows s ! i) = None
           \<and> instant (timestamps (rows s ! i)) \<le> instant (timestamp r)"
proof -
  from r mergeLoop_subset[OF assms(1)] have "r \<in> set (expected st en s)" by blast
  from expected_mem[OF this] obtain i p where i: "i < length (rows s)"
    and p: "p \<in> set (pending s i)" and rp: "r = mkLine (filenames (rows s ! i)) p" by blast
  from pending_lower[OF mono_nth[OF m i] p] rp pending_alive[OF p] i show ?thesis
    by (auto simp: mkLine_def)
qed

text \<open>What is sent never goes back in time.\<close>

lemma mergeLoop_sorted:
  "wf s \<Longrightarrow> mono s \<Longrightarrow> sorted (map (\<lambda>r. instant (timestamp r)) (mergeLoop st en s))"
proof (induction st en s rule: mergeLoop.induct)
  case (1 st en s)
  show ?case
  proof (cases "iteration st en s")
    case Break
    then show ?thesis by (simp add: mergeLoop_Break)
  next
    case (Panic sent)
    with "1.prems" iteration_Panic(1) show ?thesis by blast
  next
    case (Next sent s')
    note w' = wf_step[OF "1.prems"(1) Next] and m' = mono_step[OF "1.prems"(2) Next]
    from Next obtain e where
      fe: "findEarliest (rows s) = Some (e, timestamps (rows s ! e))" and
      e: "e < length (rows s)" and
      sent: "sent = (if IsZero st \<or> \<not> Before (timestamps (rows s ! e)) st
             then [mkLine (filenames (rows s ! e))
                     (timestamps (rows s ! e), restOfLines (rows s ! e))]
             else [])" and
      len: "length (rows s') = length (rows s)" and
      oth: "\<And>j. j \<noteq> e \<Longrightarrow> rows s' ! j = rows s ! j" and
      rs: "rowSorted e (vars s) (rows s ! e) \<Longrightarrow>
         rowSorted e (vars s') (rows s' ! e) \<and>
         (fileErrors (rows s' ! e) = None \<longrightarrow>
            instant (timestamps (rows s ! e)) \<le> instant (timestamps (rows s' ! e)))"
      by (rule step_facts) (rule that; assumption)
    have later: "instant (timestamps (rows s ! e)) \<le> instant (timestamp y)"
      if y: "y \<in> set (mergeLoop st en s')" for y
    proof -
      from mergeLoop_lower[OF w' m' y] obtain i where i: "i < length (rows s')"
        and al: "fileErrors (rows s' ! i) = None"
        and le: "instant (timestamps (rows s' ! i)) \<le> instant (timestamp y)" by blast
      have "instant (timestamps (rows s ! e)) \<le> instant (timestamps (rows s' ! i))"
      proof (cases "i = e")
        case True
        with rs[OF mono_nth[OF "1.prems"(2) e]] al show ?thesis by simp
      next
        case False
        with oth[OF False] al i len findEarliest_Some(4)[OF fe, of i] show ?thesis by simp
      qed
      with le show ?thesis by simp
    qed
    have "sorted (map (\<lambda>r. instant (timestamp r)) (mergeLoop st en s'))"
      by (rule "1.IH"[OF Next w' m'])
    with later sent show ?thesis
      by (auto simp: mergeLoop_Next[OF Next] mkLine_def sorted_append)
  qed
qed

subsection \<open>The state in which the loop is entered\<close>

lemma seed_facts:
  assumes "i < length (rows s)"
  shows "length (rows (seed i s)) = length (rows s)"
    and "\<And>j. j \<noteq> i \<Longrightarrow> rows (seed i s) ! j = rows s ! j"
    and "\<And>j. j \<noteq> i \<Longrightarrow> agree j (vars s) (vars (seed i s))"
proof -
  show "length (rows (seed i s)) = length (rows s)"
    by (auto simp: seed_def split: option.splits prod.splits)
  show "\<And>j. j \<noteq> i \<Longrightarrow> rows (seed i s) ! j = rows s ! j"
    by (auto simp: seed_def split: option.splits prod.splits)
  show "\<And>j. j \<noteq> i \<Longrightarrow> agree j (vars s) (vars (seed i s))"
  proof -
    fix j assume j: "j \<noteq> i"
    show "agree j (vars s) (vars (seed i s))"
    proof (cases "scanners (rows s ! i)")
      case None
      then show ?thesis by (simp add: seed_def)
    next
      case (Some sc)
      obtain res sc' g' where rd: "readNextTimestamp sc i (vars s) = (res, sc', g')"
        by (metis surj_pair)
      obtain ts rest err where res: "res = (ts, rest, err)" by (metis surj_pair)
      from readNextTimestamp_frame[OF rd j] Some rd res show ?thesis
        by (simp add: seed_def)
    qed
  qed
qed

lemma seeded_stable:
  assumes "seeded fs g allFiles i s" and "rows s' ! i = rows s ! i" and "agree i (vars s) (vars s')"
  shows "seeded fs g allFiles i s'"
  using assms pending_other[OF assms(2,3)] rowSorted_cong[OF assms(3)]
  by (auto simp: seeded_def split: option.splits list.splits)

lemma openAll_nth:
  "i < length allFiles \<Longrightarrow>
   openAll fs allFiles ! i =
     (case fs (allFiles ! i) of
        None \<Rightarrow> \<lparr>scanners = None, filenames = [], fileErrors = Some OpenError,
                 timestamps = zeroTime, restOfLines = []\<rparr>
      | Some lines \<Rightarrow> \<lparr>scanners = Some lines, filenames = filepath_Base (allFiles ! i),
                       fileErrors = None, timestamps = zeroTime, restOfLines = []\<rparr>)"
  by (simp add: openAll_def)

lemma seed_seeded:
  assumes i: "i < length allFiles" and len: "length (rows s) = length allFiles"
    and op: "rows s ! i = openAll fs allFiles ! i" and ag: "agree i g (vars s)"
  shows "seeded fs g allFiles i (seed i s)"
proof (cases "fs (allFiles ! i)")
  case None
  with op i have r: "rows s ! i = \<lparr>scanners = None, filenames = [], fileErrors = Some OpenError,
                 timestamps = zeroTime, restOfLines = []\<rparr>" by (simp add: openAll_nth)
  then have "seed i s = s" by (simp add: seed_def)
  with r None show ?thesis by (simp add: seeded_def pending_def)
next
  case (Some lines)
  with op i have r: "rows s ! i = \<lparr>scanners = Some lines, filenames = filepath_Base (allFiles ! i),
                       fileErrors = None, timestamps = zeroTime, restOfLines = []\<rparr>"
    by (simp add: openAll_nth)
  from i len have il: "i < length (rows s)" by simp
  show ?thesis
  proof (cases lines)
    case Nil
    with r il Some show ?thesis
      by (simp add: seed_def seeded_def pending_def sourceRecords_def rowSorted_def)
  next
    case (Cons l ls)
    obtain ts rest err g' where p: "parseLogLine l i (vars s) = ((ts, rest, err), g')"
      by (metis surj_pair)
    obtain ts1 rest1 err1 g1 where p1: "parseLogLine l i g = ((ts1, rest1, err1), g1)"
      by (metis surj_pair)
    from parseLogLine_cong[OF ag, of l] p p1
    have eq: "ts1 = ts" "rest1 = rest" "err1 = err" and ag1: "agree i g1 g'" by simp_all
    have sd: "seed i s = \<lparr>rows = (rows s)[i := (rows s ! i)\<lparr>scanners := Some ls,
                 timestamps := (if err = None then ts else zeroTime),
                 restOfLines := rest, fileErrors := err\<rparr>], vars = g'\<rparr>"
      using r Cons p by (simp add: seed_def)
    from parseLogLine_err[OF p] show ?thesis
    proof
      assume e: "err = None"
      with sd r il Some Cons p1 eq carry_cong[OF ag1] sourceInstants_cong[OF ag1]
      show ?thesis
        by (simp add: seeded_def pending_def sourceRecords_def rowSorted_def)
    next
      assume e: "err = Some NoTimestampError"
      with sd r il Some Cons p1 eq show ?thesis
        by (simp add: seeded_def pending_def sourceRecords_def rowSorted_def)
    qed
  qed
qed

lemma fold_seed:
  assumes "k \<le> length allFiles"
  shows "length (rows (fold seed [0..<k] \<lparr>rows = openAll fs allFiles, vars = g\<rparr>)) = length allFiles
     \<and> (\<forall>i<k. seeded fs g allFiles i (fold seed [0..<k] \<lparr>rows = openAll fs allFiles, vars = g\<rparr>))
     \<and> (\<forall>i. k \<le> i \<longrightarrow>
           rows (fold seed [0..<k] \<lparr>rows = openAll fs allFiles, vars = g\<rparr>) ! i
             = openAll fs allFiles ! i
           \<and> agree i g (vars (fold seed [0..<k] \<lparr>rows = openAll fs allFiles, vars = g\<rparr>)))"
  using assms
proof (induction k)
  case 0
  then show ?case by (simp add: openAll_def)
next
  case (Suc k)
  let ?s = "fold seed [0..<k] \<lparr>rows = openAll fs allFiles, vars = g\<rparr>"
  from Suc have len: "length (rows ?s) = length allFiles"
    and sd: "\<And>i. i < k \<Longrightarrow> seeded fs g allFiles i ?s"
    and op: "\<And>i. k \<le> i \<Longrightarrow> rows ?s ! i = openAll fs allFiles ! i"
    and ag: "\<And>i. k \<le> i \<Longrightarrow> agree i g (vars ?s)"
    by simp_all
  from Suc.prems len have k: "k < length (rows ?s)" "k < length allFiles" by simp_all
  note sf = seed_facts[OF k(1)]
  have f: "fold seed [0..<Suc k] \<lparr>rows = openAll fs allFiles, vars = g\<rparr> = seed k ?s" by simp
  have 1: "length (rows (seed k ?s)) = length allFiles" using sf(1) len by simp
  have 2: "seeded fs g allFiles i (seed k ?s)" if "i < Suc k" for i
  proof (cases "i = k")
    case True
    with seed_seeded[OF k(2) len op[of k] ag[of k]] show ?thesis by simp
  next
    case False
    with that have "i < k" by simp
    from seeded_stable[OF sd[OF this] sf(2)[OF False] sf(3)[OF False]] show ?thesis .
  qed
  have 3: "rows (seed k ?s) ! i = openAll fs allFiles ! i \<and> agree i g (vars (seed k ?s))"
    if "Suc k \<le> i" for i
  proof -
    from that have ne: "i \<noteq> k" and le: "k \<le> i" by simp_all
    from sf(2)[OF ne] op[OF le] agree_trans[OF ag[OF le] sf(3)[OF ne]] show ?thesis by simp
  qed
  from 1 2 3 show ?case unfolding f by blast
qed

lemma seedAll_facts:
  shows "length (rows (seedAll fs g allFiles)) = length allFiles"
    and "\<And>i. i < length allFiles \<Longrightarrow> seeded fs g allFiles i (seedAll fs g allFiles)"
  using fold_seed[of "length allFiles" allFiles fs g] by (simp_all add: seedAll_def)

lemma seedAll_wf: "wf (seedAll fs g allFiles)"
  unfolding wf_def list_all_length
proof (intro allI impI)
  fix i assume "i < length (rows (seedAll fs g allFiles))"
  then have "i < length allFiles" by (simp add: seedAll_facts(1))
  from seedAll_facts(2)[OF this]
  show "fileErrors (rows (seedAll fs g allFiles) ! i) \<noteq> None
        \<or> scanners (rows (seedAll fs g allFiles) ! i) \<noteq> None"
    by (simp add: seeded_def)
qed

lemma seedAll_mono:
  assumes "sourcesSorted fs g allFiles"
  shows "mono (seedAll fs g allFiles)"
proof (rule monoI)
  fix i assume "i < length (rows (seedAll fs g allFiles))"
  then have i: "i < length allFiles" by (simp add: seedAll_facts(1))
  show "rowSorted i (vars (seedAll fs g allFiles)) (rows (seedAll fs g allFiles) ! i)"
  proof (cases "fs (allFiles ! i)")
    case None
    with seedAll_facts(2)[OF i, of fs g] have "pending (seedAll fs g allFiles) i = []"
      by (simp add: seeded_def)
    then show ?thesis
      by (cases "fileErrors (rows (seedAll fs g allFiles) ! i)";
          cases "scanners (rows (seedAll fs g allFiles) ! i)")
         (auto simp: pending_def Let_def rowSorted_def)
  next
    case (Some lines)
    from assms have "\<forall>j\<in>set [0..<length allFiles].
        case fs (allFiles ! j) of None \<Rightarrow> True
        | Some lines \<Rightarrow> sorted (map instant (sourceInstants j g lines))"
      by (simp add: sourcesSorted_def list_all_iff)
    with i have "case fs (allFiles ! i) of None \<Rightarrow> True
        | Some lines \<Rightarrow> sorted (map instant (sourceInstants i g lines))" by simp
    with Some have "sorted (map instant (sourceInstants i g lines))" by simp
    with seedAll_facts(2)[OF i, of fs g] Some show ?thesis by (simp add: seeded_def)
  qed
qed

lemma seedAll_expected:
  "expected st en (seedAll fs g allFiles)
   = concat (map (contribution fs g allFiles st en) [0..<length allFiles])"
proof -
  have "filter (\<lambda>r. inWindow st en (timestamp r))
          (map (mkLine (filenames (rows (seedAll fs g allFiles) ! i)))
               (pending (seedAll fs g allFiles) i))
        = contribution fs g allFiles st en i" if "i < length allFiles" for i
    using seedAll_facts(2)[OF that, of fs g]
    by (cases "fs (allFiles ! i)") (simp_all add: seeded_def contribution_def)
  then have "map (\<lambda>i. filter (\<lambda>r. inWindow st en (timestamp r))
          (map (mkLine (filenames (rows (seedAll fs g allFiles) ! i)))
               (pending (seedAll fs g allFiles) i))) [0..<length allFiles]
        = map (contribution fs g allFiles st en) [0..<length allFiles]"
    by (intro map_cong) auto
  then show ?thesis
    by (simp only: expected_def seedAll_facts(1))
qed

lemma readNextTimestamp_scanner:
  "fst (snd (readNextTimestamp sc i g)) = drop 1 sc"
  by (cases sc) (auto split: prod.splits)

lemma iteration_progress:
  assumes fe: "findEarliest (rows s) = Some (e, t)" and en: "IsZero en \<or> \<not> After t en"
    and sc: "scanners (rows s ! e) = Some sc"
  shows "\<exists>s'. iteration st en s =
            Next (if IsZero st \<or> \<not> Before t st
                  then [\<lparr>timestamp = t, filename = filenames (rows s ! e),
                          restOfLine = restOfLines (rows s ! e)\<rparr>]
                  else []) s'
          \<and> scanners (rows s' ! e) = Some (drop 1 sc)
          \<and> vars s' = snd (snd (readNextTimestamp sc e (vars s)))"
proof -
  obtain res sc' g' where rd: "readNextTimestamp sc e (vars s) = (res, sc', g')"
    by (metis surj_pair)
  obtain ts rest err where res: "res = (ts, rest, err)" by (metis surj_pair)
  from readNextTimestamp_scanner[of sc e "vars s"] rd have sc': "sc' = drop 1 sc" by simp
  note f = findEarliest_Some(1,2)[OF fe]
  from fe en sc rd res f sc' show ?thesis
    by (auto simp: iteration_def Let_def)
qed

lemma retired_not_selected:
  "fileErrors (rs ! i) \<noteq> None \<Longrightarrow> findEarliest rs \<noteq> Some (i, t)"
  using findEarliest_Some(2)[of rs i t] by auto

lemma retired_frame:
  assumes "fileErrors (rows s ! i) \<noteq> None" and it: "iteration st en s = Next sent s'"
  shows "rows s' ! i = rows s ! i"
proof -
  from it obtain e where al: "fileErrors (rows s ! e) = None"
    and oth: "\<And>j. j \<noteq> e \<Longrightarrow> rows s' ! j = rows s ! j"
    by (rule step_facts) (rule that; assumption)
  from al assms(1) have "i \<noteq> e" by auto
  from oth[OF this] show ?thesis .
qed


lemma concat_map_filter_nil:
  "(\<And>x. \<not> P x \<Longrightarrow> f x = []) \<Longrightarrow> concat (map f (filter P xs)) = concat (map f xs)"
  by (induction xs) auto

lemma IsZero_zeroTime: "IsZero zeroTime"
  by (simp add: IsZero_def instant_def zeroTime_def daysSinceEpoch_def daysBefore_def isLeap_def)

lemma mergeLogs_mset:
  assumes "IsZero endTime \<or> sourcesSorted fs g allFiles"
  shows "mset (mergeLogs fs g allFiles startTime endTime)
         = mset (concat (map (contribution fs g allFiles startTime endTime) [0..<length allFiles]))"
proof -
  from assms have "IsZero endTime \<or> mono (seedAll fs g allFiles)"
    using seedAll_mono by blast
  from mergeLoop_mset[OF seedAll_wf this] show ?thesis
    by (simp add: mergeLogs_def seedAll_expected)
qed

subsection \<open>C1: the records are sent in order\<close>

text \<open>
  Claim C1. When in every file that opens the instants of the timestamped lines never
  decrease, the instants of the records \<^verbatim>\<open>mergeLogs\<close> sends never decrease. In every
  pass the selected source is one that is not retired, and no source that is not retired
  holds an earlier instant; when the selected instant lies inside the window, the record
  sent is the one that source holds.
\<close>

theorem merge_order:
  "(sourcesSorted fs g allFiles \<longrightarrow>
      sorted (map (\<lambda>r. instant (timestamp r)) (mergeLogs fs g allFiles startTime endTime)))
   \<and> (findEarliest (rows s) = Some (e, t) \<longrightarrow>
        e < length (rows s) \<and> fileErrors (rows s ! e) = None \<and> t = timestamps (rows s ! e)
        \<and> (\<forall>j<length (rows s). fileErrors (rows s ! j) = None
               \<longrightarrow> instant t \<le> instant (timestamps (rows s ! j))))
   \<and> (findEarliest (rows s) = Some (e, t) \<and> (IsZero en \<or> \<not> After t en)
        \<and> (IsZero st \<or> \<not> Before t st) \<and> scanners (rows s ! e) = Some sc \<longrightarrow>
        (\<exists>s'. iteration st en s =
                Next [\<lparr>timestamp = t, filename = filenames (rows s ! e),
                        restOfLine = restOfLines (rows s ! e)\<rparr>] s'))"
proof (intro conjI impI)
  assume "sourcesSorted fs g allFiles"
  from mergeLoop_sorted[OF seedAll_wf seedAll_mono[OF this]]
  show "sorted (map (\<lambda>r. instant (timestamp r)) (mergeLogs fs g allFiles startTime endTime))"
    by (simp add: mergeLogs_def)
next
  assume fe: "findEarliest (rows s) = Some (e, t)"
  from findEarliest_Some[OF fe]
  show "e < length (rows s)" and "fileErrors (rows s ! e) = None" and "t = timestamps (rows s ! e)"
    and "\<forall>j<length (rows s). fileErrors (rows s ! j) = None
               \<longrightarrow> instant t \<le> instant (timestamps (rows s ! j))"
    by blast+
next
  assume a: "findEarliest (rows s) = Some (e, t) \<and> (IsZero en \<or> \<not> After t en)
        \<and> (IsZero st \<or> \<not> Before t st) \<and> scanners (rows s ! e) = Some sc"
  then have fe: "findEarliest (rows s) = Some (e, t)" and en: "IsZero en \<or> \<not> After t en"
    and st: "IsZero st \<or> \<not> Before t st" and sc: "scanners (rows s ! e) = Some sc" by blast+
  from iteration_progress[OF fe en sc, of st] st
  show "\<exists>s'. iteration st en s =
                Next [\<lparr>timestamp = t, filename = filenames (rows s ! e),
                        restOfLine = restOfLines (rows s ! e)\<rparr>] s'"
    by auto
qed

theorem merge_order_witness:
  "sourcesSorted ex_fs ex_g ex_files
   \<and> sorted (map (\<lambda>r. instant (timestamp r)) (mergeLogs ex_fs ex_g ex_files zeroTime zeroTime))
   \<and> mergeLogs ex_fs ex_g ex_files zeroTime zeroTime
       = [mkLine ''a.log'' (ex_at 0, '' hello''), mkLine ''a.log'' (ex_at 0, ''  continued''),
          mkLine ''b.log'' (ex_at 2, '' foo''), mkLine ''a.log'' (ex_at 5, '' world'')]
   \<and> findEarliest (rows (seedAll ex_fs ex_g ex_files)) = Some (0, ex_at 0)
   \<and> fileErrors (rows (seedAll ex_fs ex_g ex_files) ! 1) = None
   \<and> instant (ex_at 0) \<le> instant (timestamps (rows (seedAll ex_fs ex_g ex_files) ! 1))
   \<and> IsZero zeroTime
   \<and> scanners (rows (seedAll ex_fs ex_g ex_files) ! 0)
       = Some [''  continued'', ''2024-01-01 10:00:05 world'']
   \<and> (\<exists>s'. iteration zeroTime zeroTime (seedAll ex_fs ex_g ex_files) =
              Next [\<lparr>timestamp = ex_at 0,
                      filename = filenames (rows (seedAll ex_fs ex_g ex_files) ! 0),
                      restOfLine = restOfLines (rows (seedAll ex_fs ex_g ex_files) ! 0)\<rparr>] s')"
proof -
  have a: "sourcesSorted ex_fs ex_g ex_files" by code_simp
  have b: "findEarliest (rows (seedAll ex_fs ex_g ex_files)) = Some (0, ex_at 0)" by code_simp
  have c: "mergeLogs ex_fs ex_g ex_files zeroTime zeroTime
       = [mkLine ''a.log'' (ex_at 0, '' hello''), mkLine ''a.log'' (ex_at 0, ''  continued''),
          mkLine ''b.log'' (ex_at 2, '' foo''), mkLine ''a.log'' (ex_at 5, '' world'')]"
    by code_simp
  have d: "scanners (rows (seedAll ex_fs ex_g ex_files) ! 0)
           = Some [''  continued'', ''2024-01-01 10:00:05 world'']" by code_simp
  have e: "fileErrors (rows (seedAll ex_fs ex_g ex_files) ! 1) = None" by code_simp
  have f: "1 < length (rows (seedAll ex_fs ex_g ex_files))" by code_simp
  note z = IsZero_zeroTime
  from a b c d e f z
    merge_order[of ex_fs ex_g ex_files zeroTime zeroTime "seedAll ex_fs ex_g ex_files" 0 "ex_at 0"
      zeroTime zeroTime "[''  continued'', ''2024-01-01 10:00:05 world'']"]
  show ?thesis by blast
qed

subsection \<open>C2: the window\<close>

text \<open>
  Claim C2. With a configured start, no record sent is before it; with a configured end,
  no record sent is after it. A selected record that is before the start is not sent,
  and one line of its source is read all the same. As soon as the selected record is
  after the end the loop is left and nothing more is sent; that test comes first, so it
  also ends the run on a record that would not have been sent.
\<close>

theorem windowing:
  "(r \<in> set (mergeLogs fs g allFiles startTime endTime) \<longrightarrow>
      (\<not> IsZero startTime \<longrightarrow> \<not> Before (timestamp r) startTime)
      \<and> (\<not> IsZero endTime \<longrightarrow> \<not> After (timestamp r) endTime))
   \<and> (findEarliest (rows s) = Some (e, t) \<and> \<not> IsZero st \<and> Before t st
        \<and> (IsZero en \<or> \<not> After t en) \<and> scanners (rows s ! e) = Some sc \<longrightarrow>
        (\<exists>s'. iteration st en s = Next [] s' \<and> scanners (rows s' ! e) = Some (drop 1 sc)))
   \<and> (findEarliest (rows s2) = Some (e2, t2) \<and> \<not> IsZero en2 \<and> After t2 en2 \<longrightarrow>
        iteration st2 en2 s2 = Break \<and> mergeLoop st2 en2 s2 = [])"
proof (intro conjI impI)
  assume "r \<in> set (mergeLogs fs g allFiles startTime endTime)"
  then have w: "inWindow startTime endTime (timestamp r)"
    by (simp add: mergeLogs_def mergeLoop_inWindow)
  { assume "\<not> IsZero startTime"
    with w show "\<not> Before (timestamp r) startTime" by (simp add: inWindow_def Before_def) }
  { assume "\<not> IsZero endTime"
    with w show "\<not> After (timestamp r) endTime" by (simp add: inWindow_def After_def) }
next
  assume a: "findEarliest (rows s) = Some (e, t) \<and> \<not> IsZero st \<and> Before t st
        \<and> (IsZero en \<or> \<not> After t en) \<and> scanners (rows s ! e) = Some sc"
  then have fe: "findEarliest (rows s) = Some (e, t)" and en: "IsZero en \<or> \<not> After t en"
    and st: "\<not> IsZero st" "Before t st" and sc: "scanners (rows s ! e) = Some sc" by blast+
  from iteration_progress[OF fe en sc, of st] st
  show "\<exists>s'. iteration st en s = Next [] s' \<and> scanners (rows s' ! e) = Some (drop 1 sc)"
    by auto
next
  assume a: "findEarliest (rows s2) = Some (e2, t2) \<and> \<not> IsZero en2 \<and> After t2 en2"
  then show b: "iteration st2 en2 s2 = Break" by (simp add: iteration_def)
  then show "mergeLoop st2 en2 s2 = []" by (rule mergeLoop_Break)
qed

theorem windowing_witness:
  "mergeLogs ex_fs ex_g ex_files (ex_at 1) (ex_at 3) = [mkLine ''b.log'' (ex_at 2, '' foo'')]
   \<and> \<not> IsZero (ex_at 1) \<and> \<not> IsZero (ex_at 3)
   \<and> \<not> Before (timestamp (mkLine ''b.log'' (ex_at 2, '' foo''))) (ex_at 1)
   \<and> \<not> After (timestamp (mkLine ''b.log'' (ex_at 2, '' foo''))) (ex_at 3)
   \<and> findEarliest (rows (seedAll ex_fs ex_g ex_files)) = Some (0, ex_at 0)
   \<and> Before (ex_at 0) (ex_at 1) \<and> \<not> After (ex_at 0) (ex_at 3)
   \<and> scanners (rows (seedAll ex_fs ex_g ex_files) ! 0)
       = Some [''  continued'', ''2024-01-01 10:00:05 world'']
   \<and> (\<exists>s'. iteration (ex_at 1) (ex_at 3) (seedAll ex_fs ex_g ex_files) = Next [] s'
          \<and> scanners (rows s' ! 0)
              = Some (drop 1 [''  continued'', ''2024-01-01 10:00:05 world'']))
   \<and> \<not> IsZero ex_early \<and> After (ex_at 0) ex_early
   \<and> iteration (ex_at 30) ex_early (seedAll ex_fs ex_g ex_files) = Break
   \<and> mergeLoop (ex_at 30) ex_early (seedAll ex_fs ex_g ex_files) = []"
proof -
  have a: "mergeLogs ex_fs ex_g ex_files (ex_at 1) (ex_at 3) = [mkLine ''b.log'' (ex_at 2, '' foo'')]"
    by code_simp
  then have a': "mkLine ''b.log'' (ex_at 2, '' foo'')
                 \<in> set (mergeLogs ex_fs ex_g ex_files (ex_at 1) (ex_at 3))" by simp
  have b: "\<not> IsZero (ex_at 1)" "\<not> IsZero (ex_at 3)" "\<not> IsZero ex_early" by code_simp+
  have c: "findEarliest (rows (seedAll ex_fs ex_g ex_files)) = Some (0, ex_at 0)" by code_simp
  have d: "Before (ex_at 0) (ex_at 1)" "\<not> After (ex_at 0) (ex_at 3)" "After (ex_at 0) ex_early"
    by code_simp+
  have e: "scanners (rows (seedAll ex_fs ex_g ex_files) ! 0)
       = Some [''  continued'', ''2024-01-01 10:00:05 world'']" by code_simp
  from a a' b c d e
    windowing[of "mkLine ''b.log'' (ex_at 2, '' foo'')" ex_fs ex_g ex_files "ex_at 1" "ex_at 3"
      "seedAll ex_fs ex_g ex_files" 0 "ex_at 0" "ex_at 1" "ex_at 3"
      "[''  continued'', ''2024-01-01 10:00:05 world'']"
      "seedAll ex_fs ex_g ex_files" 0 "ex_at 0" ex_early "ex_at 30"]
  show ?thesis by blast
qed

subsection \<open>C5: lines without a timestamp\<close>



subsection \<open>C7: retired sources\<close>

text \<open>
  Claim C7. A source whose error slot is set is never the selected one, and a pass of the
  loop leaves its row as it is, so it stays retired and is never read again. What the
  other sources contribute is still sent: when the files are sorted (or no end bound is
  configured) the records sent are, as a multiset, exactly the contributions of all
  sources inside the window, and when the files are sorted they are sent in order. The
  contribution of a source depends on its own file only, so a source that fails early
  takes nothing away from the others.
\<close>

theorem retired_sources_are_left_alone:
  "(fileErrors (rows s ! i) \<noteq> None \<longrightarrow>
      findEarliest (rows s) \<noteq> Some (i, t)
      \<and> (\<forall>sent s'. iteration st en s = Next sent s' \<longrightarrow> rows s' ! i = rows s ! i))
   \<and> (IsZero endTime \<or> sourcesSorted fs g allFiles \<longrightarrow>
        mset (mergeLogs fs g allFiles startTime endTime)
        = mset (concat (map (contribution fs g allFiles startTime endTime)
                            [0..<length allFiles])))
   \<and> (sourcesSorted fs g allFiles \<longrightarrow>
        sorted (map (\<lambda>r. instant (timestamp r)) (mergeLogs fs g allFiles startTime endTime)))
   \<and> (fs' (allFiles ! j) = fs (allFiles ! j) \<longrightarrow>
        contribution fs' g allFiles startTime endTime j
        = contribution fs g allFiles startTime endTime j)"
proof (intro conjI impI allI)
  assume "fileErrors (rows s ! i) \<noteq> None"
  then show "findEarliest (rows s) \<noteq> Some (i, t)" by (rule retired_not_selected)
next
  fix sent s'
  assume "fileErrors (rows s ! i) \<noteq> None" and "iteration st en s = Next sent s'"
  then show "rows s' ! i = rows s ! i" by (rule retired_frame)
next
  assume "IsZero endTime \<or> sourcesSorted fs g allFiles"
  then show "mset (mergeLogs fs g allFiles startTime endTime)
        = mset (concat (map (contribution fs g allFiles startTime endTime)
                            [0..<length allFiles]))"
    by (rule mergeLogs_mset)
next
  assume "sourcesSorted fs g allFiles"
  from mergeLoop_sorted[OF seedAll_wf seedAll_mono[OF this]]
  show "sorted (map (\<lambda>r. instant (timestamp r)) (mergeLogs fs g allFiles startTime endTime))"
    by (simp add: mergeLogs_def)
next
  assume "fs' (allFiles ! j) = fs (allFiles ! j)"
  then show "contribution fs' g allFiles startTime endTime j
        = contribution fs g allFiles startTime endTime j"
    by (simp add: contribution_def)
qed

theorem retired_sources_are_left_alone_witness:
  "fileErrors (rows (seedAll ex_fs ex_g ex_files) ! 4) = Some EndOfFileError
   \<and> findEarliest (rows (seedAll ex_fs ex_g ex_files)) \<noteq> Some (4, ex_at 0)
   \<and> (\<exists>sent s'. iteration zeroTime (ex_at 3) (seedAll ex_fs ex_g ex_files) = Next sent s'
          \<and> rows s' ! 4 = rows (seedAll ex_fs ex_g ex_files) ! 4)
   \<and> sourcesSorted ex_fs ex_g ex_files
   \<and> mset (mergeLogs ex_fs ex_g ex_files zeroTime (ex_at 3))
       = mset (concat (map (contribution ex_fs ex_g ex_files zeroTime (ex_at 3))
                           [0..<length ex_files]))
   \<and> sorted (map (\<lambda>r. instant (timestamp r)) (mergeLogs ex_fs ex_g ex_files zeroTime (ex_at 3)))
   \<and> mergeLogs ex_fs ex_g ex_files zeroTime (ex_at 3)
       = [mkLine ''a.log'' (ex_at 0, '' hello''), mkLine ''a.log'' (ex_at 0, ''  continued''),
          mkLine ''b.log'' (ex_at 2, '' foo'')]
   \<and> (ex_fs(''logs/b.log'' := None)) (ex_files ! 0) = ex_fs (ex_files ! 0)
   \<and> contribution (ex_fs(''logs/b.log'' := None)) ex_g ex_files zeroTime (ex_at 3) 0
       = contribution ex_fs ex_g ex_files zeroTime (ex_at 3) 0"
proof -
  have a: "fileErrors (rows (seedAll ex_fs ex_g ex_files) ! 4) = Some EndOfFileError"
    by code_simp
  then have a': "fileErrors (rows (seedAll ex_fs ex_g ex_files) ! 4) \<noteq> None" by simp
  have b: "findEarliest (rows (seedAll ex_fs ex_g ex_files)) = Some (0, ex_at 0)" by code_simp
  have c: "scanners (rows (seedAll ex_fs ex_g ex_files) ! 0)
       = Some [''  continued'', ''2024-01-01 10:00:05 world'']" by code_simp
  have d: "\<not> After (ex_at 0) (ex_at 3)" by code_simp
  from iteration_progress[OF b _ c, of "ex_at 3" zeroTime] d
  obtain sent s' where it: "iteration zeroTime (ex_at 3) (seedAll ex_fs ex_g ex_files) = Next sent s'"
    by blast
  have e: "sourcesSorted ex_fs ex_g ex_files" by code_simp
  have f: "mergeLogs ex_fs ex_g ex_files zeroTime (ex_at 3)
       = [mkLine ''a.log'' (ex_at 0, '' hello''), mkLine ''a.log'' (ex_at 0, ''  continued''),
          mkLine ''b.log'' (ex_at 2, '' foo'')]" by code_simp
  have h: "(ex_fs(''logs/b.log'' := None)) (ex_files ! 0) = ex_fs (ex_files ! 0)"
    by (simp add: ex_files_def)
  from a a' it e f h
    retired_sources_are_left_alone[of "seedAll ex_fs ex_g ex_files" 4 "ex_at 0" zeroTime "ex_at 3"
      "ex_at 3" ex_fs ex_g ex_files zeroTime "ex_fs(''logs/b.log'' := None)" 0]
  show ?thesis by blast
qed

subsection \<open>C10: a file that starts without a timestamp\<close>

text \<open>
  Claim C10. When the first line of a file has no timestamp, the first read stores
  \<^verbatim>\<open>NoTimestampError\<close> in the error slot of that source before the loop is entered. The
  source is then never selected, and every record sent is a record contributed by one of
  the other sources: none of its lines is sent, not even a later one with a timestamp.
\<close>

theorem first_line_without_timestamp:
  "i < length allFiles \<and> fs (allFiles ! i) = Some (l # ls)
     \<and> snd (snd (fst (parseLogLine l i g))) = Some NoTimestampError \<longrightarrow>
   fileErrors (rows (seedAll fs g allFiles) ! i) = Some NoTimestampError
   \<and> findEarliest (rows (seedAll fs g allFiles)) \<noteq> Some (i, t)
   \<and> set (mergeLogs fs g allFiles startTime endTime)
       \<subseteq> set (concat (map (contribution fs g allFiles startTime endTime)
                           (filter (\<lambda>j. j \<noteq> i) [0..<length allFiles])))"
proof (intro impI)
  assume a: "i < length allFiles \<and> fs (allFiles ! i) = Some (l # ls)
     \<and> snd (snd (fst (parseLogLine l i g))) = Some NoTimestampError"
  then have i: "i < length allFiles" and f: "fs (allFiles ! i) = Some (l # ls)"
    and nt: "snd (snd (fst (parseLogLine l i g))) = Some NoTimestampError" by blast+
  from seedAll_facts(2)[OF i, of fs g] f nt
  have 1: "fileErrors (rows (seedAll fs g allFiles) ! i) = Some NoTimestampError"
    by (simp add: seeded_def)
  then have 2: "findEarliest (rows (seedAll fs g allFiles)) \<noteq> Some (i, t)"
    by (intro retired_not_selected) simp
  obtain ts rest err g' where p: "parseLogLine l i g = ((ts, rest, err), g')"
    by (metis surj_pair)
  with nt have "err = Some NoTimestampError" by simp
  with p f have c: "contribution fs g allFiles startTime endTime i = []"
    by (simp add: contribution_def sourceRecords_def)
  have "set (mergeLogs fs g allFiles startTime endTime)
        \<subseteq> set (concat (map (contribution fs g allFiles startTime endTime) [0..<length allFiles]))"
    using mergeLoop_subset[OF seedAll_wf, of startTime endTime fs g allFiles]
    by (simp only: mergeLogs_def seedAll_expected)
  also have "concat (map (contribution fs g allFiles startTime endTime) [0..<length allFiles])
     = concat (map (contribution fs g allFiles startTime endTime)
                   (filter (\<lambda>j. j \<noteq> i) [0..<length allFiles]))"
    using c by (intro concat_map_filter_nil[symmetric]) simp
  finally have 3: "set (mergeLogs fs g allFiles startTime endTime)
       \<subseteq> set (concat (map (contribution fs g allFiles startTime endTime)
                           (filter (\<lambda>j. j \<noteq> i) [0..<length allFiles])))" .
  from 1 2 3 show "fileErrors (rows (seedAll fs g allFiles) ! i) = Some NoTimestampError
   \<and> findEarliest (rows (seedAll fs g allFiles)) \<noteq> Some (i, t)
   \<and> set (mergeLogs fs g allFiles startTime endTime)
       \<subseteq> set (concat (map (contribution fs g allFiles startTime endTime)
                           (filter (\<lambda>j. j \<noteq> i) [0..<length allFiles])))" by blast
qed

theorem first_line_without_timestamp_witness:
  "2 < length ex_files
   \<and> ex_fs (ex_files ! 2) = Some [''no timestamp here'', ''2024-01-01 10:00:01 never shown'']
   \<and> snd (snd (fst (parseLogLine ''no timestamp here'' 2 ex_g))) = Some NoTimestampError
   \<and> fileErrors (rows (seedAll ex_fs ex_g ex_files) ! 2) = Some NoTimestampError
   \<and> findEarliest (rows (seedAll ex_fs ex_g ex_files)) \<noteq> Some (2, ex_at 1)
   \<and> set (mergeLogs ex_fs ex_g ex_files zeroTime zeroTime)
       \<subseteq> set (concat (map (contribution ex_fs ex_g ex_files zeroTime zeroTime)
                           (filter (\<lambda>j. j \<noteq> 2) [0..<length ex_files])))
   \<and> fst (parseLogLine ''2024-01-01 10:00:01 never shown'' 2 ex_g)
       = (ex_at 1, '' never shown'', None)
   \<and> mergeLogs ex_fs ex_g ex_files zeroTime zeroTime
       = [mkLine ''a.log'' (ex_at 0, '' hello''), mkLine ''a.log'' (ex_at 0, ''  continued''),
          mkLine ''b.log'' (ex_at 2, '' foo''), mkLine ''a.log'' (ex_at 5, '' world'')]"
proof -
  have a: "2 < length ex_files" by code_simp
  have b: "ex_fs (ex_files ! 2)
           = Some [''no timestamp here'', ''2024-01-01 10:00:01 never shown'']" by code_simp
  have c: "snd (snd (fst (parseLogLine ''no timestamp here'' 2 ex_g))) = Some NoTimestampError"
    by code_simp
  have d: "fst (parseLogLine ''2024-01-01 10:00:01 never shown'' 2 ex_g)
       = (ex_at 1, '' never shown'', None)" by code_simp
  have e: "mergeLogs ex_fs ex_g ex_files zeroTime zeroTime
       = [mkLine ''a.log'' (ex_at 0, '' hello''), mkLine ''a.log'' (ex_at 0, ''  continued''),
          mkLine ''b.log'' (ex_at 2, '' foo''), mkLine ''a.log'' (ex_at 5, '' world'')]"
    by code_simp
  from a b c d e
    first_line_without_timestamp[of 2 ex_files ex_fs "''no timestamp here''"
      "[''2024-01-01 10:00:01 never shown'']" ex_g "ex_at 1" zeroTime zeroTime]
  show ?thesis by blast
qed

section \<open>Further properties of the program\<close>

subsection \<open>What \<^verbatim>\<open>findBestMatch\<close> returns\<close>

lemma findBestMatchFrom_result:
  assumes "findBestMatchFrom i ps line (index, resLoc, err) = (k, loc, e)"
    and "\<And>j. j < length ps \<Longrightarrow> tab ! (i + j) = ps ! j"
    and "(err = None) = (resLoc \<noteq> None)"
    and "err = None \<or> err = Some NoTimestampError"
    and "\<And>l. resLoc = Some l \<Longrightarrow> index < i \<and> FindStringIndex (regex (tab ! index)) line = Some l"
  shows "(e = None) = (loc \<noteq> None) \<and> (e = None \<or> e = Some NoTimestampError)
       \<and> (\<forall>l. loc = Some l \<longrightarrow> k < i + length ps \<and> FindStringIndex (regex (tab ! k)) line = Some l)
       \<and> (loc = None \<longrightarrow> resLoc = None \<and> (\<forall>p \<in> set ps. FindStringIndex (regex p) line = None))"
  using assms
proof (induction ps arbitrary: i index resLoc err)
  case Nil
  then show ?case by auto
next
  case (Cons p ps)
  have tab: "\<And>j. j < length ps \<Longrightarrow> tab ! (Suc i + j) = ps ! j"
    using Cons.prems(2)[of "Suc j" for j] by simp
  have p: "tab ! i = p" using Cons.prems(2)[of 0] by simp
  show ?case
  proof (cases "FindStringIndex (regex p) line")
    case None
    with Cons.prems(1) have r: "findBestMatchFrom (Suc i) ps line (index, resLoc, err) = (k, loc, e)"
      by simp
    have "\<And>l. resLoc = Some l \<Longrightarrow> index < Suc i \<and> FindStringIndex (regex (tab ! index)) line = Some l"
      using Cons.prems(5) by fastforce
    from Cons.IH[OF r tab Cons.prems(3,4) this] None show ?thesis by auto
  next
    case (Some l0)
    show ?thesis
    proof (cases "case resLoc of None \<Rightarrow> True
              | Some r \<Rightarrow> fst l0 < fst r \<or> int (snd r) - int (fst r) < int (snd l0) - int (fst l0)")
      case True
      with Some Cons.prems(1) have r: "findBestMatchFrom (Suc i) ps line (i, Some l0, None) = (k, loc, e)"
        by simp
      have "(e = None) = (loc \<noteq> None) \<and> (e = None \<or> e = Some NoTimestampError)
       \<and> (\<forall>l. loc = Some l \<longrightarrow> k < Suc i + length ps \<and> FindStringIndex (regex (tab ! k)) line = Some l)
       \<and> (loc = None \<longrightarrow> Some l0 = None \<and> (\<forall>p \<in> set ps. FindStringIndex (regex p) line = None))"
        using Some p by (intro Cons.IH[OF r tab]) auto
      then show ?thesis by auto
    next
      case False
      with Some Cons.prems(1) have r: "findBestMatchFrom (Suc i) ps line (index, resLoc, err) = (k, loc, e)"
        by simp
      from False obtain r0 where r0: "resLoc = Some r0" by (cases resLoc) auto
      have "\<And>l. resLoc = Some l \<Longrightarrow> index < Suc i \<and> FindStringIndex (regex (tab ! index)) line = Some l"
        using Cons.prems(5) by fastforce
      from Cons.IH[OF r tab Cons.prems(3,4) this] r0 show ?thesis by auto
    qed
  qed
qed

lemma findBestMatch_match:
  assumes "findBestMatch line = (k, Some l, err)"
  shows "FindStringIndex (regex (timestampPatterns ! k)) line = Some l"
proof -
  from assms have r: "findBestMatchFrom 0 timestampPatterns line (0, None, Some NoTimestampError)
                      = (k, Some l, err)" by (simp add: findBestMatch_def)
  have "(err = None) = (Some l \<noteq> None) \<and> (err = None \<or> err = Some NoTimestampError)
       \<and> (\<forall>l'. Some l = Some l' \<longrightarrow> k < 0 + length timestampPatterns
              \<and> FindStringIndex (regex (timestampPatterns ! k)) line = Some l')
       \<and> (Some l = None \<longrightarrow> (None :: (nat \<times> nat) option) = None
              \<and> (\<forall>p \<in> set timestampPatterns. FindStringIndex (regex p) line = None))"
    by (rule findBestMatchFrom_result[OF r]) auto
  then show ?thesis by simp
qed

lemma findBestMatch_index:
  assumes "findBestMatch line = (k, Some l, err)"
  shows "k < length timestampPatterns"
proof -
  from assms have r: "findBestMatchFrom 0 timestampPatterns line (0, None, Some NoTimestampError)
                      = (k, Some l, err)" by (simp add: findBestMatch_def)
  have "(err = None) = (Some l \<noteq> None) \<and> (err = None \<or> err = Some NoTimestampError)
       \<and> (\<forall>l'. Some l = Some l' \<longrightarrow> k < 0 + length timestampPatterns
              \<and> FindStringIndex (regex (timestampPatterns ! k)) line = Some l')
       \<and> (Some l = None \<longrightarrow> (None :: (nat \<times> nat) option) = None
              \<and> (\<forall>p \<in> set timestampPatterns. FindStringIndex (regex p) line = None))"
    by (rule findBestMatchFrom_result[OF r]) auto
  then show ?thesis by simp
qed

text \<open>
  \<^verbatim>\<open>findBestMatch\<close> returns a \<^verbatim>\<open>nil\<close> error exactly when it returns a location; the
  only other error is \<^verbatim>\<open>NoTimestampError\<close>; a returned location is the match of the
  pattern whose index is returned, and that index lies inside the table; no location is
  returned exactly when no pattern matches the line. So \<^verbatim>\<open>parseLogLine\<close> never
  indexes a \<^verbatim>\<open>nil\<close> location.
\<close>

theorem findBestMatch_result:
  assumes "findBestMatch line = (k, loc, err)"
  shows "(err = None) = (loc \<noteq> None)
       \<and> (err = None \<or> err = Some NoTimestampError)
       \<and> (\<forall>l. loc = Some l \<longrightarrow>
             k < length timestampPatterns
             \<and> FindStringIndex (regex (timestampPatterns ! k)) line = Some l)
       \<and> (loc = None) = (\<forall>p \<in> set timestampPatterns. FindStringIndex (regex p) line = None)"
proof -
  from assms have r: "findBestMatchFrom 0 timestampPatterns line (0, None, Some NoTimestampError)
                      = (k, loc, err)" by (simp add: findBestMatch_def)
  have 1: "(err = None) = (loc \<noteq> None) \<and> (err = None \<or> err = Some NoTimestampError)
       \<and> (\<forall>l. loc = Some l \<longrightarrow> k < 0 + length timestampPatterns
              \<and> FindStringIndex (regex (timestampPatterns ! k)) line = Some l)
       \<and> (loc = None \<longrightarrow> (None :: (nat \<times> nat) option) = None
              \<and> (\<forall>p \<in> set timestampPatterns. FindStringIndex (regex p) line = None))"
    by (rule findBestMatchFrom_result[OF r]) auto
  have 2: "loc = None" if "\<forall>p \<in> set timestampPatterns. FindStringIndex (regex p) line = None"
  proof (rule ccontr)
    assume "loc \<noteq> None"
    then obtain l where "loc = Some l" by auto
    with 1 have "k < length timestampPatterns"
      and "FindStringIndex (regex (timestampPatterns ! k)) line = Some l" by auto
    with that show False by (metis nth_mem option.distinct(1))
  qed
  from 1 2 show ?thesis by auto
qed

theorem findBestMatch_result_witness:
  "findBestMatch ''2024-01-01 10:00:00,123 up'' = (2, Some (0, 23), None)
   \<and> (None :: error option) = None \<and> Some (0 :: nat, 23 :: nat) \<noteq> None
   \<and> 2 < length timestampPatterns
   \<and> FindStringIndex (regex (timestampPatterns ! 2)) ''2024-01-01 10:00:00,123 up'' = Some (0, 23)"
proof -
  have a: "findBestMatch ''2024-01-01 10:00:00,123 up'' = (2, Some (0, 23), None)" by code_simp
  from a findBestMatch_result[OF a] show ?thesis by blast
qed

subsection \<open>The remainder that \<^verbatim>\<open>parseLogLine\<close> returns with a \<^verbatim>\<open>nil\<close> error\<close>

lemma extractTimestamp_remainder:
  assumes "FindStringIndex (regex p) line = Some (loc0, loc1)"
    and "extractTimestamp cy line (loc0, loc1) (layout p) = (ts, remaining, None)"
  shows "remaining = take loc0 line @ drop loc1 line
       \<and> take loc0 remaining @ slice line loc0 loc1 @ drop loc0 remaining = line
       \<and> length remaining + length (slice line loc0 loc1) = length line"
proof -
  from FindStringIndex_bounds[OF assms(1)] have b: "loc0 \<le> loc1" "loc1 \<le> length line" by simp_all
  from assms(2) have r: "remaining = take loc0 line @ drop loc1 line"
    by (auto simp: extractTimestamp_def split: option.splits)
  from b have "length (slice line loc0 loc1) = loc1 - loc0" by (simp add: slice_def)
  with b r reinsert_slice[OF b] show ?thesis by simp
qed

lemma extractTimestamp_cases:
  "extractTimestamp cy line (loc0, loc1) lay = (ts, remaining, err) \<Longrightarrow>
   (case time_Parse lay (slice line loc0 loc1) of
      None \<Rightarrow> ts = zeroTime \<and> remaining = line \<and> err = Some NoTimestampError
    | Some t \<Rightarrow> remaining = take loc0 line @ drop loc1 line \<and> err = None)"
  by (auto simp: extractTimestamp_def split: option.splits)

lemma fullScan_remainder:
  assumes "fullScan line i g = ((ts, remaining, None), g')"
  shows "\<exists>k loc0 loc1.
           findBestMatch line = (k, Some (loc0, loc1), None)
         \<and> FindStringIndex (regex (timestampPatterns ! k)) line = Some (loc0, loc1)
         \<and> (case time_Parse (layout (timestampPatterns ! k)) (slice line loc0 loc1) of
              Some t \<Rightarrow> remaining = take loc0 line @ drop loc1 line
                       \<and> take loc0 remaining @ slice line loc0 loc1 @ drop loc0 remaining = line
            | None \<Rightarrow> ts = zeroTime \<and> remaining = line)"
proof -
  obtain k loc err where f: "findBestMatch line = (k, loc, err)" by (metis surj_pair)
  from assms f obtain loc0 loc1 where l: "loc = Some (loc0, loc1)" and e: "err = None"
    by (cases loc; cases err) (auto simp: fullScan_def)
  from f l e have m: "FindStringIndex (regex (timestampPatterns ! k)) line = Some (loc0, loc1)"
    by (simp add: findBestMatch_match)
  obtain ts' r' e' where x: "extractTimestamp (currentYear g) line (loc0, loc1)
      (layout (timestampPatterns ! k)) = (ts', r', e')" by (metis surj_pair)
  from assms f l e x have eq: "ts = ts'" "remaining = r'" by (auto simp: fullScan_def)
  show ?thesis
  proof (cases "time_Parse (layout (timestampPatterns ! k)) (slice line loc0 loc1)")
    case None
    with extractTimestamp_cases[OF x] eq f l e m show ?thesis by auto
  next
    case (Some t)
    with extractTimestamp_cases[OF x] have "e' = None" by simp
    with x eq have "extractTimestamp (currentYear g) line (loc0, loc1)
      (layout (timestampPatterns ! k)) = (ts, remaining, None)" by simp
    from extractTimestamp_remainder[OF m this] Some f l e m show ?thesis by auto
  qed
qed

text \<open>
  Whenever \<^verbatim>\<open>parseLogLine\<close> returns a \<^verbatim>\<open>nil\<close> error, some pattern of the table
  matches the line at the location the function used. If the matched substring parses
  under the layout of that pattern, the remainder is the line without the matched
  substring, and putting the substring back at the start offset of the match gives the
  line again. If it does not parse, the location is the one \<^verbatim>\<open>findBestMatch\<close> selected,
  the returned instant is the zero time and the remainder is the whole line.
\<close>

theorem parseLogLine_remainder:
  assumes "parseLogLine line i g = ((ts, remaining, None), g')"
  shows "\<exists>k loc0 loc1.
           FindStringIndex (regex (timestampPatterns ! k)) line = Some (loc0, loc1)
         \<and> (case time_Parse (layout (timestampPatterns ! k)) (slice line loc0 loc1) of
              Some t \<Rightarrow> remaining = take loc0 line @ drop loc1 line
                       \<and> take loc0 remaining @ slice line loc0 loc1 @ drop loc0 remaining = line
            | None \<Rightarrow> findBestMatch line = (k, Some (loc0, loc1), None)
                       \<and> ts = zeroTime \<and> remaining = line)"
proof -
  let ?g = "g\<lparr>processedLines := processedLines g + 1\<rparr>"
  have fs: ?thesis if "fullScan line i ?g = ((ts, remaining, None), g')"
  proof -
    from fullScan_remainder[OF that] obtain k loc0 loc1 where
      f: "findBestMatch line = (k, Some (loc0, loc1), None)"
      and m: "FindStringIndex (regex (timestampPatterns ! k)) line = Some (loc0, loc1)"
      and c: "(case time_Parse (layout (timestampPatterns ! k)) (slice line loc0 loc1) of
              Some t \<Rightarrow> remaining = take loc0 line @ drop loc1 line
                       \<and> take loc0 remaining @ slice line loc0 loc1 @ drop loc0 remaining = line
            | None \<Rightarrow> ts = zeroTime \<and> remaining = line)"
      by blast
    have "case time_Parse (layout (timestampPatterns ! k)) (slice line loc0 loc1) of
              Some t \<Rightarrow> remaining = take loc0 line @ drop loc1 line
                       \<and> take loc0 remaining @ slice line loc0 loc1 @ drop loc0 remaining = line
            | None \<Rightarrow> findBestMatch line = (k, Some (loc0, loc1), None)
                       \<and> ts = zeroTime \<and> remaining = line"
    proof (cases "time_Parse (layout (timestampPatterns ! k)) (slice line loc0 loc1)")
      case None
      from c f show ?thesis unfolding None option.case by simp
    next
      case (Some t)
      from c show ?thesis unfolding Some option.case .
    qed
    with m show ?thesis by blast
  qed
  show ?thesis
  proof (cases "logFormatIndexes g i")
    case None
    with assms have "fullScan line i ?g = ((ts, remaining, None), g')"
      by (simp add: parseLogLine_def Let_def)
    then show ?thesis by (rule fs)
  next
    case (Some idx)
    show ?thesis
    proof (cases "FindStringIndex (regex (timestampPatterns ! idx)) line")
      case None
      with Some assms have "fullScan line i ?g = ((ts, remaining, None), g')"
        by (simp add: parseLogLine_def Let_def)
      then show ?thesis by (rule fs)
    next
      case m: (Some loc)
      obtain loc0 loc1 where loc: "loc = (loc0, loc1)" by (cases loc)
      from assms Some m loc have x: "extractTimestamp (currentYear g) line (loc0, loc1)
          (layout (timestampPatterns ! idx)) = (ts, remaining, None)"
        by (auto simp: parseLogLine_def Let_def split: prod.splits)
      from extractTimestamp_cases[OF x] obtain t where
        t: "time_Parse (layout (timestampPatterns ! idx)) (slice line loc0 loc1) = Some t"
        by (auto split: option.splits)
      from m loc have m': "FindStringIndex (regex (timestampPatterns ! idx)) line = Some (loc0, loc1)"
        by simp
      note e = extractTimestamp_remainder[OF m' x]
      have "case time_Parse (layout (timestampPatterns ! idx)) (slice line loc0 loc1) of
              Some t \<Rightarrow> remaining = take loc0 line @ drop loc1 line
                       \<and> take loc0 remaining @ slice line loc0 loc1 @ drop loc0 remaining = line
            | None \<Rightarrow> findBestMatch line = (idx, Some (loc0, loc1), None)
                       \<and> ts = zeroTime \<and> remaining = line"
        unfolding t option.case using e by blast
      with m' show ?thesis by blast
    qed
  qed
qed

theorem parseLogLine_remainder_witness:
  "fst (parseLogLine ''[app] 2024-01-01 10:00:00 hello'' 0 ex_g) = (ex_at 0, ''[app]  hello'', None)
   \<and> (\<exists>k loc0 loc1.
         FindStringIndex (regex (timestampPatterns ! k)) ''[app] 2024-01-01 10:00:00 hello''
           = Some (loc0, loc1)
       \<and> time_Parse (layout (timestampPatterns ! k))
             (slice ''[app] 2024-01-01 10:00:00 hello'' loc0 loc1) \<noteq> None
       \<and> ''[app]  hello'' = take loc0 ''[app] 2024-01-01 10:00:00 hello''
                               @ drop loc1 ''[app] 2024-01-01 10:00:00 hello''
       \<and> take loc0 ''[app]  hello'' @ slice ''[app] 2024-01-01 10:00:00 hello'' loc0 loc1
            @ drop loc0 ''[app]  hello'' = ''[app] 2024-01-01 10:00:00 hello'')"
proof -
  let ?L = "''[app] 2024-01-01 10:00:00 hello''"
  have a: "fst (parseLogLine ?L 0 ex_g) = (ex_at 0, ''[app]  hello'', None)"
    by code_simp
  then have a': "parseLogLine ?L 0 ex_g
      = ((ex_at 0, ''[app]  hello'', None), snd (parseLogLine ?L 0 ex_g))"
    by (simp add: prod_eq_iff)
  have z: "ex_at 0 \<noteq> zeroTime" by code_simp
  from parseLogLine_remainder[OF a'] obtain k loc0 loc1 where
    m: "FindStringIndex (regex (timestampPatterns ! k)) ?L = Some (loc0, loc1)"
    and d: "(case time_Parse (layout (timestampPatterns ! k)) (slice ?L loc0 loc1) of
              Some t \<Rightarrow> ''[app]  hello'' = take loc0 ?L @ drop loc1 ?L
                       \<and> take loc0 ''[app]  hello'' @ slice ?L loc0 loc1 @ drop loc0 ''[app]  hello'' = ?L
            | None \<Rightarrow> findBestMatch ?L = (k, Some (loc0, loc1), None)
                       \<and> ex_at 0 = zeroTime \<and> ''[app]  hello'' = ?L)"
    by blast
  have p: "time_Parse (layout (timestampPatterns ! k)) (slice ?L loc0 loc1) \<noteq> None"
  proof
    assume n: "time_Parse (layout (timestampPatterns ! k)) (slice ?L loc0 loc1) = None"
    from d have "ex_at 0 = zeroTime" unfolding n option.case by (rule conjunct2[THEN conjunct1])
    with z show False by contradiction
  qed
  then obtain t where t: "time_Parse (layout (timestampPatterns ! k)) (slice ?L loc0 loc1) = Some t"
    by blast
  from d have "''[app]  hello'' = take loc0 ?L @ drop loc1 ?L
     \<and> take loc0 ''[app]  hello'' @ slice ?L loc0 loc1 @ drop loc0 ''[app]  hello'' = ?L"
    unfolding t option.case .
  with a m p show ?thesis by blast
qed

subsection \<open>Hints are indices into the table\<close>

lemma fullScan_hintsValid:
  assumes "hintsValid g"
  shows "hintsValid (snd (fullScan line i g))"
proof -
  obtain k loc err where f: "findBestMatch line = (k, loc, err)" by (metis surj_pair)
  from f findBestMatch_index have "\<forall>l. loc = Some l \<longrightarrow> k < length timestampPatterns" by blast
  with assms f show ?thesis
    by (auto simp: fullScan_def hintsValid_def split: option.splits prod.splits)
qed

lemma parseLogLine_hintsValid:
  assumes "hintsValid g"
  shows "hintsValid (snd (parseLogLine line i g))"
proof -
  let ?g = "g\<lparr>processedLines := processedLines g + 1\<rparr>"
  from assms have v: "hintsValid ?g" by (simp add: hintsValid_def)
  show ?thesis
  proof (cases "logFormatIndexes g i")
    case None
    with fullScan_hintsValid[OF v, of line i] show ?thesis by (simp add: parseLogLine_def Let_def)
  next
    case (Some idx)
    show ?thesis
    proof (cases "FindStringIndex (regex (timestampPatterns ! idx)) line")
      case None
      with Some fullScan_hintsValid[OF v, of line i] show ?thesis
        by (simp add: parseLogLine_def Let_def)
    next
      case (Some loc)
      with \<open>logFormatIndexes g i = Some idx\<close> assms show ?thesis
        by (auto simp: parseLogLine_def Let_def hintsValid_def split: prod.splits)
    qed
  qed
qed

text \<open>
  A call of \<^verbatim>\<open>parseLogLine\<close> keeps every stored hint inside the pattern table, so the
  access \<^verbatim>\<open>timestampPatterns[idx]\<close> on the hinted path is always in range.
\<close>

theorem hints_stay_valid:
  "hintsValid g \<Longrightarrow> hintsValid (snd (parseLogLine line i g))"
  by (rule parseLogLine_hintsValid)

theorem hints_stay_valid_witness:
  "hintsValid ex_g \<and> hintsValid (snd (parseLogLine ''2024-01-01 10:00:00 hello'' 0 ex_g))
   \<and> logFormatIndexes (snd (parseLogLine ''2024-01-01 10:00:00 hello'' 0 ex_g)) 0 = Some 4"
proof -
  have a: "hintsValid ex_g" by (simp add: hintsValid_def ex_g_def)
  have b: "logFormatIndexes (snd (parseLogLine ''2024-01-01 10:00:00 hello'' 0 ex_g)) 0 = Some 4"
    by code_simp
  from a b hints_stay_valid[OF a, of "''2024-01-01 10:00:00 hello''" 0] show ?thesis by blast
qed

subsection \<open>No \<^verbatim>\<open>nil\<close> scanner is read\<close>

text \<open>
  When the loop is entered every source that is not retired has a scanner, every pass
  keeps it so, and a pass from such a state never reads a \<^verbatim>\<open>nil\<close> scanner.
\<close>

theorem no_nil_scanner_is_read:
  "wf (seedAll fs g allFiles)
   \<and> (wf s \<and> iteration st en s = Next sent s' \<longrightarrow> wf s')
   \<and> (wf s \<longrightarrow> iteration st en s \<noteq> Panic sent)"
  using seedAll_wf wf_step iteration_Panic(1) by blast

theorem no_nil_scanner_is_read_witness:
  "wf (seedAll ex_fs ex_g ex_files)
   \<and> (\<exists>sent s'. iteration zeroTime zeroTime (seedAll ex_fs ex_g ex_files) = Next sent s' \<and> wf s')
   \<and> iteration zeroTime zeroTime (seedAll ex_fs ex_g ex_files) \<noteq> Panic []"
proof -
  have b: "findEarliest (rows (seedAll ex_fs ex_g ex_files)) = Some (0, ex_at 0)" by code_simp
  have c: "scanners (rows (seedAll ex_fs ex_g ex_files) ! 0)
       = Some [''  continued'', ''2024-01-01 10:00:05 world'']" by code_simp
  from iteration_progress[OF b _ c, of zeroTime zeroTime] IsZero_zeroTime
  obtain sent s' where it: "iteration zeroTime zeroTime (seedAll ex_fs ex_g ex_files) = Next sent s'"
    by blast
  note t1 = no_nil_scanner_is_read[of ex_fs ex_g ex_files "seedAll ex_fs ex_g ex_files"
      zeroTime zeroTime sent s']
  note t2 = no_nil_scanner_is_read[of ex_fs ex_g ex_files "seedAll ex_fs ex_g ex_files"
      zeroTime zeroTime "[]" s']
  from t1 have w: "wf (seedAll ex_fs ex_g ex_files)" by (rule conjunct1)
  from t1 w it have w': "wf s'" by simp
  from t2 w have np: "iteration zeroTime zeroTime (seedAll ex_fs ex_g ex_files) \<noteq> Panic []"
    by simp
  from it w' have "\<exists>sent s'. iteration zeroTime zeroTime (seedAll ex_fs ex_g ex_files) = Next sent s'
      \<and> wf s'" by blast
  with w np show ?thesis by simp
qed

subsection \<open>\<^verbatim>\<open>getFilenamePrefix\<close>\<close>

text \<open>
  \<^verbatim>\<open>getFilenamePrefix\<close> returns the last 20 bytes of the name, or the whole name when
  it is shorter.
\<close>

theorem getFilenamePrefix_last_20:
  "getFilenamePrefix name = drop (length name - 20) name
   \<and> length (getFilenamePrefix name) = min 20 (length name)"
  by (auto simp: getFilenamePrefix_def)

subsection \<open>How much the loop can send\<close>

lemma iteration_sent_length:
  "iteration st en s = Next sent s' \<Longrightarrow> length sent \<le> 1"
  "iteration st en s = Panic sent \<Longrightarrow> length sent \<le> 1 \<and> 0 < weight s"
proof -
  assume "iteration st en s = Next sent s'"
  then obtain e where "sent = (if IsZero st \<or> \<not> Before (timestamps (rows s ! e)) st
             then [mkLine (filenames (rows s ! e))
                     (timestamps (rows s ! e), restOfLines (rows s ! e))]
             else [])"
    by (rule step_facts) (rule that; assumption)
  then show "length sent \<le> 1" by simp
next
  assume a: "iteration st en s = Panic sent"
  from iteration_Panic(2)[OF a] have 1: "length sent \<le> 1" by auto
  from a obtain e t where fe: "findEarliest (rows s) = Some (e, t)"
    by (cases "findEarliest (rows s)") (auto simp: iteration_def)
  note f = findEarliest_Some(1,2)[OF fe]
  let ?f = "\<lambda>r. (case scanners r of None \<Rightarrow> 0 | Some sc \<Rightarrow> length sc)
                  + (if fileErrors r = None then 1 else (0::nat))"
  have "0 < ?f (rows s ! e)" using f(2) by simp
  moreover have "?f (rows s ! e) \<in> set (map ?f (rows s))" using f(1) by simp
  then have "?f (rows s ! e) \<le> sum_list (map ?f (rows s))"
    by (intro member_le_sum_list) auto
  ultimately have "0 < weight s" unfolding weight_def by linarith
  with 1 show "length sent \<le> 1 \<and> 0 < weight s" by simp
qed

text \<open>
  The loop sends at most one record for every line still to be read and every source not
  yet retired.
\<close>

theorem sends_at_most_weight:
  "length (mergeLoop st en s) \<le> weight s"
proof (induction st en s rule: mergeLoop.induct)
  case (1 st en s)
  show ?case
  proof (cases "iteration st en s")
    case Break
    then show ?thesis by (simp add: mergeLoop_Break)
  next
    case (Panic sent)
    with iteration_sent_length(2)[OF Panic] show ?thesis by (simp add: mergeLoop.simps)
  next
    case (Next sent s')
    from "1.IH"[OF Next] iteration_weight[OF Next] iteration_sent_length(1)[OF Next]
    show ?thesis by (simp add: mergeLoop_Next[OF Next])
  qed
qed

end
